theory Spec2Isabelle
  imports Main "HOL-Library.AList"
begin

section \<open>JavaScript strings\<close>

text \<open>
  A JavaScript string is a sequence of UTF-16 code units. The regular expressions and
  \<^verbatim>\<open>String.prototype.trim\<close> used by the dependency analysis distinguish code units
  above 255 (U+2028 and U+2029 are line terminators, U+FEFF is white space), so a string is
  modelled as a list of code units, each a natural number.
\<close>

type_synonym jsstring = "nat list"

abbreviation js :: "string \<Rightarrow> jsstring" where
  "js s \<equiv> map of_char s"

definition DQUOTE :: nat where
  "DQUOTE = 34"

definition COMMA :: nat where
  "COMMA = 44"

definition NEWLINE :: nat where
  "NEWLINE = 10"

definition HASH :: nat where
  "HASH = 35"

definition LPAREN :: nat where
  "LPAREN = 40"

definition RPAREN :: nat where
  "RPAREN = 41"

definition AT :: nat where
  "AT = 64"

text \<open>The regular expression atom \<^verbatim>\<open>.\<close> matches every code unit but a line terminator.\<close>

definition isLineTerminator :: "nat \<Rightarrow> bool" where
  "isLineTerminator c = (c = 10 \<or> c = 13 \<or> c = 8232 \<or> c = 8233)"

text \<open>White space as \<^verbatim>\<open>trim()\<close> removes it: WhiteSpace and LineTerminator of ECMAScript.\<close>

definition isWhiteSpace :: "nat \<Rightarrow> bool" where
  "isWhiteSpace c =
     (c = 9 \<or> c = 10 \<or> c = 11 \<or> c = 12 \<or> c = 13 \<or> c = 32 \<or> c = 160 \<or> c = 5760
      \<or> (8192 \<le> c \<and> c \<le> 8202) \<or> c = 8232 \<or> c = 8233 \<or> c = 8239 \<or> c = 8287
      \<or> c = 12288 \<or> c = 65279)"

text \<open>The regular expression class \<^verbatim>\<open>\d\<close>: the ASCII digits.\<close>

definition isDigit :: "nat \<Rightarrow> bool" where
  "isDigit c = (48 \<le> c \<and> c \<le> 57)"

definition trim :: "jsstring \<Rightarrow> jsstring" where
  "trim s = rev (dropWhile isWhiteSpace (rev (dropWhile isWhiteSpace s)))"

text \<open>\<^verbatim>\<open>s.split(sep)\<close> for a separator of one code unit; the result is never empty.\<close>

fun split :: "nat \<Rightarrow> jsstring \<Rightarrow> jsstring list" where
  "split sep [] = [[]]"
| "split sep (c # cs) =
     (if c = sep then [] # split sep cs
      else (case split sep cs of
              [] \<Rightarrow> [[c]]
            | p # ps \<Rightarrow> (c # p) # ps))"

text \<open>\<^verbatim>\<open>parts.join(sep)\<close> for a separator of one code unit.\<close>

fun join :: "nat \<Rightarrow> jsstring list \<Rightarrow> jsstring" where
  "join sep [] = []"
| "join sep [p] = p"
| "join sep (p # q # ps) = p @ sep # join sep (q # ps)"

text \<open>
  Number to string, for a non-negative integer (template literals and \<^verbatim>\<open>toString()\<close>):
  the decimal digits, most significant first.
\<close>

fun show_nat :: "nat \<Rightarrow> jsstring" where
  "show_nat n = (if n < 10 then [48 + n] else show_nat (n div 10) @ [48 + n mod 10])"

declare show_nat.simps [simp del]

text \<open>
  \<^verbatim>\<open>parseInt\<close> on a string of decimal digits, as the regular expressions capture one.
  Numbers are exact in the model: it leaves out the rounding of JavaScript numbers above
  \<open>2\<^sup>5\<^sup>3\<close>, which no line number reaches.
\<close>

definition parseInt :: "jsstring \<Rightarrow> nat" where
  "parseInt ds = foldl (\<lambda>n c. 10 * n + (c - 48)) 0 ds"

section \<open>Line-content records\<close>

text \<open>
  \<^verbatim>\<open>exportLinesToCSV\<close>: every line of the file is trimmed, its double quotes are doubled,
  and it is written as \<^verbatim>\<open>lineNumber,"text"\<close>; the records are joined by newlines.
\<close>

text \<open>\<^verbatim>\<open>s.replace(/"/g, '""')\<close>\<close>

definition escapeQuotes :: "jsstring \<Rightarrow> jsstring" where
  "escapeQuotes s = concat (map (\<lambda>c. if c = DQUOTE then [DQUOTE, DQUOTE] else [c]) s)"

text \<open>The callback of \<^verbatim>\<open>lines.map((line, index) => ...)\<close>.\<close>

definition encodeLine :: "nat \<Rightarrow> jsstring \<Rightarrow> jsstring" where
  "encodeLine index line =
     (let escapedLine = escapeQuotes (trim line)
      in show_nat (index + 1) @ [COMMA, DQUOTE] @ escapedLine @ [DQUOTE])"

definition exportLinesToCSV :: "jsstring \<Rightarrow> jsstring" where
  "exportLinesToCSV fileContent =
     (let lines = split NEWLINE fileContent;
          csvLines = map (\<lambda>(index, line). encodeLine index line) (enumerate 0 lines)
      in join NEWLINE csvLines)"

text \<open>
  \<^verbatim>\<open>s.replace(/""/g, '"')\<close>: the pairs of double quotes are found from left to right,
  without overlap.
\<close>

fun unescapeQuotes :: "jsstring \<Rightarrow> jsstring" where
  "unescapeQuotes (a # b # cs) =
     (if a = DQUOTE \<and> b = DQUOTE then DQUOTE # unescapeQuotes cs
      else a # unescapeQuotes (b # cs))"
| "unescapeQuotes cs = cs"

text \<open>
  \<^verbatim>\<open>line.match(/^(\d+),"(.*)"/)\<close>: the digits at the start of the line, a comma, a double
  quote, and then the longest run of code units other than line terminators that is followed by
  a double quote. The result holds the two groups.
\<close>

definition beforeLastQuote :: "jsstring \<Rightarrow> jsstring" where
  "beforeLastQuote seg = rev (tl (dropWhile (\<lambda>c. c \<noteq> DQUOTE) (rev seg)))"

definition matchLineRecord :: "jsstring \<Rightarrow> (jsstring \<times> jsstring) option" where
  "matchLineRecord line =
     (let digits = takeWhile isDigit line
      in if digits = [] then None
         else (case dropWhile isDigit line of
                 c1 # c2 # body \<Rightarrow>
                   if c1 = COMMA \<and> c2 = DQUOTE then
                     (let seg = takeWhile (\<lambda>c. \<not> isLineTerminator c) body
                      in if DQUOTE \<in> set seg then Some (digits, beforeLastQuote seg) else None)
                   else None
               | _ \<Rightarrow> None))"

text \<open>
  The loop over \<^verbatim>\<open>lines.csv\<close> in \<^verbatim>\<open>loadGraphFromCSV\<close>: a record that matches is
  decoded, and its content is stored under its line number.
\<close>

definition decodeLine :: "jsstring \<Rightarrow> (nat \<times> jsstring) option" where
  "decodeLine line =
     (case matchLineRecord line of
        None \<Rightarrow> None
      | Some (g1, g2) \<Rightarrow> Some (parseInt g1, unescapeQuotes g2))"

definition lineStep :: "(nat \<rightharpoonup> jsstring) \<Rightarrow> jsstring \<Rightarrow> (nat \<rightharpoonup> jsstring)" where
  "lineStep lineContents line =
     (case decodeLine line of
        None \<Rightarrow> lineContents
      | Some (lineNum, content) \<Rightarrow> lineContents(lineNum \<mapsto> content))"

definition loadLineContents :: "jsstring option \<Rightarrow> (nat \<rightharpoonup> jsstring)" where
  "loadLineContents linesCsv =
     (case linesCsv of
        None \<Rightarrow> Map.empty
      | Some linesContent \<Rightarrow> foldl lineStep Map.empty (split NEWLINE (trim linesContent)))"

section \<open>Building the line graph: \<^verbatim>\<open>loadGraphFromCSV\<close>\<close>

datatype category =
    ExplicitAssumption
  | ImplicitAssumption
  | ExplicitAssertion
  | ExplicitAssertionPostcondition
  | ImplicitAssertion
  | Infeasible
  | Unknown

definition getNodeCategories :: "jsstring \<Rightarrow> jsstring \<Rightarrow> category list" where
  "getNodeCategories nodeType assumptionType =
     (let c1 = (if nodeType = js ''Assumption'' then
                  (if assumptionType = js ''Explicit'' then [ExplicitAssumption]
                   else [ImplicitAssumption])
                else []);
          c2 = c1 @ (if nodeType = js ''Assertion'' then
                       (if assumptionType = js ''Explicit'' then [ExplicitAssertion]
                        else if assumptionType = js ''ImplicitPostcondition''
                                \<or> assumptionType = js ''ExplicitPostcondition''
                             then [ExplicitAssertionPostcondition]
                        else [ImplicitAssertion])
                     else []);
          categories = c2 @ (if nodeType = js ''Infeasible'' then [Infeasible] else [])
      in if length categories > 0 then categories else [Unknown])"

text \<open>\<^verbatim>\<open>Array.from(new Set(xs))\<close>: the first occurrence of every element, in order.\<close>

definition uniq :: "'a list \<Rightarrow> 'a list" where
  "uniq xs = rev (remdups (rev xs))"

text \<open>\<^verbatim>\<open>set.add(x)\<close> on a JavaScript \<^verbatim>\<open>Set\<close>, which iterates in insertion order.\<close>

definition set_add :: "'a \<Rightarrow> 'a list \<Rightarrow> 'a list" where
  "set_add x xs = (if x \<in> set xs then xs else xs @ [x])"

record nodeMaps =
  nodeCategories :: "nat \<rightharpoonup> category list"
  nodeIdToLine :: "jsstring \<rightharpoonup> nat"
  nodeIdToFile :: "jsstring \<rightharpoonup> jsstring"

text \<open>
  The position of a node is matched against
  \<^verbatim>\<open>/\(([^()]+?)\s+@\s+line\s+(\d+)\)\s*$/\<close> and, when that fails, against
  \<^verbatim>\<open>/(.+?)\s+@\s+line\s+(\d+)\s*$/\<close>. Both end in the same way: white space, \<^verbatim>\<open>@\<close>,
  white space, \<^verbatim>\<open>line\<close>, white space, digits, then the closing text (a parenthesis or
  nothing) and white space up to the end of the string. No run of white space or of digits can
  be shortened to make what follows match, so the longest runs are the only ones to try.
  \<open>matchPositionTail\<close> returns the digits.
\<close>

definition matchPositionTail :: "jsstring \<Rightarrow> jsstring \<Rightarrow> jsstring option" where
  "matchPositionTail closing s =
     (if takeWhile isWhiteSpace s = [] then None
      else (case dropWhile isWhiteSpace s of
              [] \<Rightarrow> None
            | c # s2 \<Rightarrow>
                if c \<noteq> AT \<or> takeWhile isWhiteSpace s2 = [] then None
                else let s3 = dropWhile isWhiteSpace s2
                     in if take 4 s3 \<noteq> js ''line'' \<or> takeWhile isWhiteSpace (drop 4 s3) = []
                        then None
                        else let s5 = dropWhile isWhiteSpace (drop 4 s3);
                                 digits = takeWhile isDigit s5;
                                 s6 = dropWhile isDigit s5
                             in if digits \<noteq> [] \<and> take (length closing) s6 = closing
                                   \<and> list_all isWhiteSpace (drop (length closing) s6)
                                then Some digits else None))"

text \<open>
  The first group is lazy: it takes one code unit of its class, and then one more at a time for
  as long as the rest of the expression does not match where it stands.
\<close>

fun lazyGroup ::
    "(nat \<Rightarrow> bool) \<Rightarrow> jsstring \<Rightarrow> jsstring \<Rightarrow> jsstring \<Rightarrow> (jsstring \<times> jsstring) option" where
  "lazyGroup ok closing grp [] =
     (case matchPositionTail closing [] of None \<Rightarrow> None | Some digits \<Rightarrow> Some (grp, digits))"
| "lazyGroup ok closing grp (c # cs) =
     (case matchPositionTail closing (c # cs) of
        Some digits \<Rightarrow> Some (grp, digits)
      | None \<Rightarrow> if ok c then lazyGroup ok closing (grp @ [c]) cs else None)"

text \<open>The two expressions, tried at every place of the string from the left.\<close>

fun matchParenthesized :: "jsstring \<Rightarrow> (jsstring \<times> jsstring) option" where
  "matchParenthesized [] = None"
| "matchParenthesized [c] = None"
| "matchParenthesized (c # d # ds) =
     (if c = LPAREN \<and> d \<noteq> LPAREN \<and> d \<noteq> RPAREN then
        (case lazyGroup (\<lambda>x. x \<noteq> LPAREN \<and> x \<noteq> RPAREN) [RPAREN] [d] ds of
           Some r \<Rightarrow> Some r
         | None \<Rightarrow> matchParenthesized (d # ds))
      else matchParenthesized (d # ds))"

fun matchPlain :: "jsstring \<Rightarrow> (jsstring \<times> jsstring) option" where
  "matchPlain [] = None"
| "matchPlain (c # cs) =
     (if \<not> isLineTerminator c then
        (case lazyGroup (\<lambda>x. \<not> isLineTerminator x) [] [c] cs of
           Some r \<Rightarrow> Some r
         | None \<Rightarrow> matchPlain cs)
      else matchPlain cs)"

definition matchPosition :: "jsstring \<Rightarrow> (jsstring \<times> jsstring) option" where
  "matchPosition position =
     (case matchParenthesized position of
        Some r \<Rightarrow> Some r
      | None \<Rightarrow> matchPlain position)"

text \<open>The body of the loop over the rows of \<^verbatim>\<open>nodes.csv\<close>.\<close>

definition nodeStep :: "jsstring \<Rightarrow> nodeMaps \<Rightarrow> jsstring \<Rightarrow> nodeMaps" where
  "nodeStep analyzedFileName st line =
     (if trim line = [] then st
      else let parts = split HASH line
           in if length parts < 7 then st
              else let nodeId = trim (parts ! 0);
                       nodeType = trim (parts ! 1);
                       assumptionType = trim (parts ! 2);
                       position = trim (parts ! 6)
                   in (case matchPosition position of
                         None \<Rightarrow> st
                       | Some (g1, g2) \<Rightarrow>
                           let fileName = trim g1;
                               lineNumber = parseInt g2;
                               st1 = st\<lparr>nodeIdToFile := (nodeIdToFile st)(nodeId \<mapsto> fileName),
                                        nodeIdToLine := (nodeIdToLine st)(nodeId \<mapsto> lineNumber)\<rparr>
                           in if fileName = analyzedFileName then
                                (let categories = getNodeCategories nodeType assumptionType
                                 in (case nodeCategories st1 lineNumber of
                                       Some existing \<Rightarrow>
                                         st1\<lparr>nodeCategories :=
                                               (nodeCategories st1)(lineNumber \<mapsto> uniq (existing @ categories))\<rparr>
                                     | None \<Rightarrow>
                                         st1\<lparr>nodeCategories :=
                                               (nodeCategories st1)(lineNumber \<mapsto> categories)\<rparr>))
                              else st1))"

definition loadNodes :: "jsstring \<Rightarrow> jsstring option \<Rightarrow> nodeMaps" where
  "loadNodes analyzedFileName nodesCsv =
     (let init = \<lparr>nodeCategories = Map.empty, nodeIdToLine = Map.empty, nodeIdToFile = Map.empty\<rparr>
      in case nodesCsv of
           None \<Rightarrow> init
         | Some nodesContent \<Rightarrow>
             foldl (nodeStep analyzedFileName) init
               (drop 1 (split NEWLINE (trim nodesContent))))"

record edgeState =
  externalDependenciesByFile :: "(nat \<times> (jsstring \<times> nat list) list) list"
  rawEdges :: "(nat \<times> nat) list"
  seenEdgeKeys :: "jsstring set"

text \<open>The template literal \<^verbatim>\<open>`${sourceLine},${targetLine}`\<close>.\<close>

definition edgeKey :: "nat \<Rightarrow> nat \<Rightarrow> jsstring" where
  "edgeKey sourceLine targetLine = show_nat sourceLine @ [COMMA] @ show_nat targetLine"

text \<open>
  Recording an external dependency: the map of the target line and the line array of the source
  file are created when missing, and the source line is appended unless already present.
\<close>

definition trackExternal ::
    "(nat \<times> (jsstring \<times> nat list) list) list \<Rightarrow> nat \<Rightarrow> jsstring \<Rightarrow> nat option
       \<Rightarrow> (nat \<times> (jsstring \<times> nat list) list) list" where
  "trackExternal ext targetLine sourceFile sourceLineInExternalFile =
     (let fileMap = (case map_of ext targetLine of None \<Rightarrow> [] | Some fm \<Rightarrow> fm);
          lineArray = (case map_of fileMap sourceFile of None \<Rightarrow> [] | Some la \<Rightarrow> la);
          lineArray' = (case sourceLineInExternalFile of
                          None \<Rightarrow> lineArray
                        | Some l \<Rightarrow> if l \<in> set lineArray then lineArray else lineArray @ [l])
      in AList.update targetLine (AList.update sourceFile lineArray' fileMap) ext)"

text \<open>The body of the loop over the rows of \<^verbatim>\<open>edges.csv\<close>.\<close>

definition edgeStep :: "jsstring \<Rightarrow> nodeMaps \<Rightarrow> edgeState \<Rightarrow> jsstring \<Rightarrow> edgeState" where
  "edgeStep analyzedFileName nm st line =
     (if trim line = [] then st
      else let parts = split COMMA line
           in if length parts < 2 then st
              else let sourceId = trim (parts ! 0);
                       targetId = trim (parts ! 1);
                       sourceLine = nodeIdToLine nm sourceId;
                       sourceFile = nodeIdToFile nm sourceId;
                       targetLine = nodeIdToLine nm targetId;
                       targetFile = nodeIdToFile nm targetId;
                       st1 = (case (targetLine, sourceFile) of
                                (Some tLine, Some sFile) \<Rightarrow>
                                  if targetFile = Some analyzedFileName \<and> sFile \<noteq> []
                                     \<and> sFile \<noteq> analyzedFileName
                                  then st\<lparr>externalDependenciesByFile :=
                                            trackExternal (externalDependenciesByFile st) tLine sFile
                                              (nodeIdToLine nm sourceId)\<rparr>
                                  else st
                              | _ \<Rightarrow> st)
                   in (case (sourceLine, targetLine) of
                         (Some sLine, Some tLine) \<Rightarrow>
                           if sourceFile = Some analyzedFileName
                              \<and> targetFile = Some analyzedFileName \<and> sLine \<noteq> tLine
                           then (if edgeKey sLine tLine \<in> seenEdgeKeys st1 then st1
                                 else st1\<lparr>seenEdgeKeys := insert (edgeKey sLine tLine) (seenEdgeKeys st1),
                                          rawEdges := rawEdges st1 @ [(sLine, tLine)]\<rparr>)
                           else st1
                       | _ \<Rightarrow> st1))"

definition loadEdges :: "jsstring \<Rightarrow> nodeMaps \<Rightarrow> jsstring option \<Rightarrow> edgeState" where
  "loadEdges analyzedFileName nm edgesCsv =
     (let init = \<lparr>externalDependenciesByFile = [], rawEdges = [], seenEdgeKeys = {}\<rparr>
      in case edgesCsv of
           None \<Rightarrow> init
         | Some edgesContent \<Rightarrow>
             foldl (edgeStep analyzedFileName nm) init
               (drop 1 (split NEWLINE (trim edgesContent))))"

text \<open>
  \<^verbatim>\<open>parentMap\<close>: for every target line the set of its source lines, in insertion order.
\<close>

definition addParent :: "(nat \<times> nat list) list \<Rightarrow> nat \<times> nat \<Rightarrow> (nat \<times> nat list) list" where
  "addParent parentMap edge =
     (let parents = (case map_of parentMap (snd edge) of None \<Rightarrow> [] | Some ps \<Rightarrow> ps)
      in AList.update (snd edge) (set_add (fst edge) parents) parentMap)"

definition buildParentMap :: "(nat \<times> nat) list \<Rightarrow> (nat \<times> nat list) list" where
  "buildParentMap raw = foldl addParent [] raw"

definition shouldBypass :: "category list \<Rightarrow> bool" where
  "shouldBypass categories = (ExplicitAssertion \<in> set categories)"

text \<open>
  The measure of the recursion below: the number of lines with an entry in \<open>parentMap\<close> that
  are not yet visited, and then the length of the list of parents still to do. Every call that
  goes on to the parents of a line has put a line with an entry in \<open>parentMap\<close> into
  \<open>visited\<close>, and \<open>visited\<close> never shrinks.
\<close>

definition resolve_measure ::
  "((nat \<rightharpoonup> category list) \<times> (nat \<times> nat list) list \<times> nat \<times> nat set) +
   ((nat \<rightharpoonup> category list) \<times> (nat \<times> nat list) list \<times> nat list \<times> nat set)
     \<Rightarrow> nat \<times> nat" where
  "resolve_measure x =
     (case x of
        Inl (nc, pm, line, visited) \<Rightarrow> (card (fst ` set pm - visited), 0)
      | Inr (nc, pm, ps, visited) \<Rightarrow> (card (fst ` set pm - visited), Suc (length ps)))"

text \<open>
  \<^verbatim>\<open>resolveRealSources(line, visited)\<close> mutates the set \<open>visited\<close>, which all recursive
  calls of one resolution share: the model returns the real sources together with the set as
  the call leaves it. \<open>resolveParents\<close> is the loop over the parents of a line.
\<close>

function resolveRealSources ::
    "(nat \<rightharpoonup> category list) \<Rightarrow> (nat \<times> nat list) list \<Rightarrow> nat \<Rightarrow> nat set
       \<Rightarrow> nat list \<times> nat set"
  and resolveParents ::
    "(nat \<rightharpoonup> category list) \<Rightarrow> (nat \<times> nat list) list \<Rightarrow> nat list \<Rightarrow> nat set
       \<Rightarrow> nat list \<times> nat set"
where
  "resolveRealSources nodeCats parentMap line visited =
     (if line \<in> visited then ([], visited)
      else let visited' = insert line visited;
               categories = (case nodeCats line of None \<Rightarrow> [] | Some cs \<Rightarrow> cs)
           in if \<not> shouldBypass categories then ([line], visited')
              else (case map_of parentMap line of
                      None \<Rightarrow> ([line], visited')
                    | Some parents \<Rightarrow>
                        if parents = [] then ([line], visited')
                        else resolveParents nodeCats parentMap parents visited'))"
| "resolveParents nodeCats parentMap [] visited = ([], visited)"
| "resolveParents nodeCats parentMap (parent # rest) visited =
     (case resolveRealSources nodeCats parentMap parent visited of
        (realSources1, visited1) \<Rightarrow>
          (case resolveParents nodeCats parentMap rest visited1 of
             (realSources2, visited2) \<Rightarrow> (realSources1 @ realSources2, visited2)))"
  by pat_completeness auto

termination
proof (relation "inv_image (less_than <*lex*> less_than) resolve_measure")
  show "wf (inv_image (less_than <*lex*> less_than) resolve_measure)"
    by (intro wf_inv_image wf_lex_prod wf_less_than)
next
  fix nodeCats :: "nat \<rightharpoonup> category list"
  fix parentMap :: "(nat \<times> nat list) list" and line :: nat and visited x :: "nat set"
    and x2 :: "nat list"
  assume "line \<notin> visited" and x: "x = insert line visited"
    and "map_of parentMap line = Some x2"
  then have "line \<in> fst ` set parentMap - visited"
    by (auto dest: map_of_SomeD intro: rev_image_eqI)
  then have "card (fst ` set parentMap - insert line visited) < card (fst ` set parentMap - visited)"
    by (intro psubset_card_mono) auto
  then show "(Inr (nodeCats, parentMap, x2, x), Inl (nodeCats, parentMap, line, visited))
      \<in> inv_image (less_than <*lex*> less_than) resolve_measure"
    by (simp add: resolve_measure_def x)
next
  fix nodeCats :: "nat \<rightharpoonup> category list"
  fix parentMap :: "(nat \<times> nat list) list" and parent :: nat and rest :: "nat list"
    and visited :: "nat set"
  show "(Inl (nodeCats, parentMap, parent, visited),
         Inr (nodeCats, parentMap, parent # rest, visited))
      \<in> inv_image (less_than <*lex*> less_than) resolve_measure"
    by (simp add: resolve_measure_def)
next
  fix nodeCats :: "nat \<rightharpoonup> category list"
  fix parentMap :: "(nat \<times> nat list) list" and parent :: nat and rest :: "nat list"
    and visited y :: "nat set" and x :: "nat list"
  assume xy: "(x, y) = resolveRealSources nodeCats parentMap parent visited"
    and dom: "resolveRealSources_resolveParents_dom (Inl (nodeCats, parentMap, parent, visited))"
  have grows:
    "resolveRealSources_resolveParents_dom (Inl (nc, pm, l, v)) \<Longrightarrow>
       v \<subseteq> snd (resolveRealSources nc pm l v)"
    "resolveRealSources_resolveParents_dom (Inr (nc, pm, ps, v)) \<Longrightarrow>
       v \<subseteq> snd (resolveParents nc pm ps v)"
    for nc pm l ps v
  proof (induction nc pm l v and nc pm ps v rule: resolveRealSources_resolveParents.pinduct)
    case (1 nc pm l v)
    then show ?case
      by (auto simp: resolveRealSources.psimps Let_def split: option.splits if_splits)
  next
    case (2 nc pm v)
    then show ?case by (simp add: resolveParents.psimps)
  next
    case (3 nc pm parent rest v)
    then show ?case
      by (fastforce simp: resolveParents.psimps split: prod.splits)
  qed
  from grows(1)[OF dom] xy have "visited \<subseteq> y"
    by (metis snd_conv)
  then have "card (fst ` set parentMap - y) \<le> card (fst ` set parentMap - visited)"
    by (intro card_mono) auto
  then show "(Inr (nodeCats, parentMap, rest, y),
         Inr (nodeCats, parentMap, parent # rest, visited))
      \<in> inv_image (less_than <*lex*> less_than) resolve_measure"
    by (auto simp: resolve_measure_def)
qed

declare resolveRealSources.simps [simp del]

record rebuildState =
  rs_nodes :: "nat list"
  rs_edges :: "(nat \<times> nat) list"
  resolvedEdgeKeys :: "jsstring set"

text \<open>The body of the loop over the real sources of one raw edge.\<close>

definition emitEdge :: "nat \<Rightarrow> rebuildState \<Rightarrow> nat \<Rightarrow> rebuildState" where
  "emitEdge target st realSource =
     (if realSource = target then st
      else if edgeKey realSource target \<in> resolvedEdgeKeys st then st
      else st\<lparr>resolvedEdgeKeys := insert (edgeKey realSource target) (resolvedEdgeKeys st),
              rs_nodes := set_add target (set_add realSource (rs_nodes st)),
              rs_edges := rs_edges st @ [(realSource, target)]\<rparr>)"

text \<open>The body of the loop that rebuilds the edges: every resolution starts from an empty set.\<close>

definition rebuildStep ::
    "(nat \<rightharpoonup> category list) \<Rightarrow> (nat \<times> nat list) list \<Rightarrow> rebuildState \<Rightarrow> nat \<times> nat
       \<Rightarrow> rebuildState" where
  "rebuildStep nodeCats parentMap st edge =
     (let realSources = fst (resolveRealSources nodeCats parentMap (fst edge) {})
      in foldl (emitEdge (snd edge)) st realSources)"

definition rebuildEdges ::
    "(nat \<rightharpoonup> category list) \<Rightarrow> (nat \<times> nat) list \<Rightarrow> rebuildState" where
  "rebuildEdges nodeCats raw =
     (let parentMap = buildParentMap raw;
          st = foldl (rebuildStep nodeCats parentMap)
                 \<lparr>rs_nodes = [], rs_edges = [], resolvedEdgeKeys = {}\<rparr> raw
      in st\<lparr>rs_nodes := foldl (\<lambda>ns edge. set_add (snd edge) (set_add (fst edge) ns))
                            (rs_nodes st) raw\<rparr>)"

text \<open>
  The graph handed to the view. A node id is the decimal rendering of its line number, an edge
  id is \<^verbatim>\<open>e\<close> followed by its index, and the endpoints of an edge are node ids: the model
  keeps the numbers. The line type and the assignment variable of a node, which
  \<^verbatim>\<open>getLineType\<close> reads off the line's text for display, are left out.
\<close>

record GraphNode =
  node_lineNumber :: nat
  node_categories :: "category list"
  node_content :: jsstring
  externalDependencyCount :: nat
  externalDependencies :: "(jsstring \<times> nat list) list option"

record GraphEdge =
  edge_index :: nat
  edge_source :: nat
  edge_target :: nat

record GraphData =
  nodes :: "GraphNode list"
  edges :: "GraphEdge list"

definition makeNode ::
    "nodeMaps \<Rightarrow> (nat \<rightharpoonup> jsstring) \<Rightarrow> (nat \<times> (jsstring \<times> nat list) list) list \<Rightarrow> nat
       \<Rightarrow> GraphNode" where
  "makeNode nm lineContents ext ident =
     (let fileMap = map_of ext ident;
          externalDepCount = (case fileMap of
                                None \<Rightarrow> 0
                              | Some fm \<Rightarrow> foldl (\<lambda>n (fileName, ls). n + length ls) 0 fm);
          externalDeps = (case fileMap of
                            None \<Rightarrow> []
                          | Some fm \<Rightarrow> map (\<lambda>(fileName, ls). (fileName, sort ls)) fm)
      in \<lparr>node_lineNumber = ident,
          node_categories = (case nodeCategories nm ident of None \<Rightarrow> [Unknown] | Some cs \<Rightarrow> cs),
          node_content = (case lineContents ident of None \<Rightarrow> [] | Some c \<Rightarrow> c),
          externalDependencyCount = externalDepCount,
          externalDependencies = (if length externalDeps > 0 then Some externalDeps else None)\<rparr>)"

record csvFiles =
  csvExists :: bool
  linesCsv :: "jsstring option"
  nodesCsv :: "jsstring option"
  edgesCsv :: "jsstring option"

text \<open>
  The files are the parameter \<open>files\<close>: whether \<^verbatim>\<open>edges_translated.csv\<close> exists, and the
  contents of \<^verbatim>\<open>lines.csv\<close>, \<^verbatim>\<open>nodes.csv\<close> and \<^verbatim>\<open>edges.csv\<close> where they exist.
\<close>

definition rawEdgesOf :: "csvFiles \<Rightarrow> jsstring \<Rightarrow> (nat \<times> nat) list" where
  "rawEdgesOf files analyzedFileName =
     rawEdges (loadEdges analyzedFileName
                 (loadNodes analyzedFileName (nodesCsv files)) (edgesCsv files))"

definition loadGraphFromCSV :: "csvFiles \<Rightarrow> jsstring \<Rightarrow> GraphData" where
  "loadGraphFromCSV files analyzedFileName =
     (if \<not> csvExists files then \<lparr>nodes = [], edges = []\<rparr>
      else let lineContents = loadLineContents (linesCsv files);
               nm = loadNodes analyzedFileName (nodesCsv files);
               es = loadEdges analyzedFileName nm (edgesCsv files);
               st = rebuildEdges (nodeCategories nm) (rawEdges es)
           in \<lparr>nodes = map (makeNode nm lineContents (externalDependenciesByFile es)) (rs_nodes st),
               edges = map (\<lambda>(i, e). \<lparr>edge_index = i, edge_source = fst e, edge_target = snd e\<rparr>)
                         (enumerate 0 (rs_edges st))\<rparr>)"

section \<open>The derived edge file: \<^verbatim>\<open>translateEdgesToLineNumbers\<close>\<close>

text \<open>
  \<^verbatim>\<open>position.match(/line (\d+)/)\<close>: the leftmost place where \<^verbatim>\<open>line\<close> and a space are
  followed by a digit; the group is the longest run of digits there.
\<close>

fun matchLineNumber :: "jsstring \<Rightarrow> jsstring option" where
  "matchLineNumber [] = None"
| "matchLineNumber (c # cs) =
     (let digits = takeWhile isDigit (drop 5 (c # cs))
      in if take 5 (c # cs) = js ''line '' \<and> digits \<noteq> [] then Some digits
         else matchLineNumber cs)"

text \<open>
  The body of the loop over the rows of \<^verbatim>\<open>nodes.csv\<close>. The position is field 6 of at least 7
  in one version of the file and field 5 of at least 6 in the two others: \<open>positionField\<close>.
\<close>

definition translateNodeStep ::
    "nat \<Rightarrow> (jsstring \<rightharpoonup> nat) \<Rightarrow> jsstring \<Rightarrow> (jsstring \<rightharpoonup> nat)" where
  "translateNodeStep positionField nodeToLine line =
     (if trim line = [] then nodeToLine
      else let parts = split HASH line
           in if length parts < positionField + 1 then nodeToLine
              else let nodeId = trim (parts ! 0);
                       position = trim (parts ! positionField)
                   in (case matchLineNumber position of
                         None \<Rightarrow> nodeToLine
                       | Some digits \<Rightarrow> nodeToLine(nodeId \<mapsto> parseInt digits)))"

record translateState =
  translatedEdges :: "jsstring list"
  seenEdges :: "jsstring set"

text \<open>The template literal \<^verbatim>\<open>`${sourceLine},${targetLine},${label}`\<close>.\<close>

definition labelledEdgeKey :: "nat \<Rightarrow> nat \<Rightarrow> jsstring \<Rightarrow> jsstring" where
  "labelledEdgeKey sourceLine targetLine label =
     show_nat sourceLine @ [COMMA] @ show_nat targetLine @ [COMMA] @ label"

text \<open>The body of the loop over the rows of \<^verbatim>\<open>edges.csv\<close>.\<close>

definition translateEdgeStep ::
    "(jsstring \<rightharpoonup> nat) \<Rightarrow> translateState \<Rightarrow> jsstring \<Rightarrow> translateState" where
  "translateEdgeStep nodeToLine st rawLine =
     (let line = trim rawLine
      in if line = [] then st
         else let parts = split COMMA line
              in if length parts < 3 then st
                 else let sourceId = trim (parts ! 0);
                          targetId = trim (parts ! 1);
                          label = trim (parts ! 2)
                      in (case (nodeToLine sourceId, nodeToLine targetId) of
                            (Some sourceLine, Some targetLine) \<Rightarrow>
                              if sourceLine \<noteq> targetLine then
                                (let key = labelledEdgeKey sourceLine targetLine label
                                 in if key \<in> seenEdges st then st
                                    else st\<lparr>seenEdges := insert key (seenEdges st),
                                            translatedEdges := translatedEdges st @ [key]\<rparr>)
                              else st
                          | _ \<Rightarrow> st))"

text \<open>
  The rows written to \<^verbatim>\<open>edges_translated.csv\<close>, the header first; \<open>None\<close> when one of the
  two files is missing or empty and nothing is written.
\<close>

definition translatedRows :: "nat \<Rightarrow> jsstring option \<Rightarrow> jsstring option \<Rightarrow> jsstring list option" where
  "translatedRows positionField nodesContent edgesContent =
     (case (nodesContent, edgesContent) of
        (Some nc, Some ec) \<Rightarrow>
          if nc = [] \<or> ec = [] then None
          else let nodeToLine = foldl (translateNodeStep positionField) Map.empty
                                  (drop 1 (split NEWLINE nc));
                   edgeLines = split NEWLINE ec;
                   header = hd edgeLines;
                   st = foldl (translateEdgeStep nodeToLine)
                          \<lparr>translatedEdges = [header], seenEdges = {}\<rparr> (drop 1 edgeLines)
               in Some (translatedEdges st)
      | _ \<Rightarrow> None)"

definition translateEdgesToLineNumbers ::
    "nat \<Rightarrow> jsstring option \<Rightarrow> jsstring option \<Rightarrow> jsstring option" where
  "translateEdgesToLineNumbers positionField nodesContent edgesContent =
     map_option (join NEWLINE) (translatedRows positionField nodesContent edgesContent)"

section \<open>The graph read from the derived edge file: the older \<^verbatim>\<open>loadGraphFromCSV\<close>\<close>

text \<open>
  In \<^verbatim>\<open>client/src/DependencyAnalysis.ts\<close> the graph is not built from \<^verbatim>\<open>edges.csv\<close>:
  \<^verbatim>\<open>performDependencyAnalysis\<close> calls \<^verbatim>\<open>translateEdgesToLineNumbers\<close> and then
  \<^verbatim>\<open>showDependencyGraph\<close>, which passes the path of \<^verbatim>\<open>edges_translated.csv\<close> to
  \<^verbatim>\<open>loadGraphFromCSV\<close>. The definitions of this section carry the suffix \<open>_client\<close>.
\<close>

text \<open>
  \<^verbatim>\<open>parseInt(string)\<close> without a radix: leading white space is skipped, a sign is read, the
  prefix \<^verbatim>\<open>0x\<close> or \<^verbatim>\<open>0X\<close> selects radix 16, and the longest run of digits of the radix is
  the number; \<open>None\<close> stands for \<^verbatim>\<open>NaN\<close>. Numbers are exact in the model, as for
  \<open>parseInt\<close> above.
\<close>

definition isHexDigit :: "nat \<Rightarrow> bool" where
  "isHexDigit c = (isDigit c \<or> (65 \<le> c \<and> c \<le> 70) \<or> (97 \<le> c \<and> c \<le> 102))"

definition digitValue :: "nat \<Rightarrow> nat" where
  "digitValue c = (if isDigit c then c - 48 else if c \<le> 70 then c - 55 else c - 87)"

definition parseInt_noRadix :: "jsstring \<Rightarrow> int option" where
  "parseInt_noRadix string =
     (let s = dropWhile isWhiteSpace string;
          negative = (take 1 s = js ''-'');
          s1 = (if take 1 s = js ''+'' \<or> take 1 s = js ''-'' then drop 1 s else s);
          hex = (take 2 s1 = js ''0x'' \<or> take 2 s1 = js ''0X'');
          s2 = (if hex then drop 2 s1 else s1);
          z = takeWhile (if hex then isHexDigit else isDigit) s2;
          mathInt = int (foldl (\<lambda>n c. (if hex then 16 else 10) * n + digitValue c) 0 z)
      in if z = [] then None
         else Some (if negative then - mathInt else mathInt))"

text \<open>\<^verbatim>\<open>s.includes(searchString)\<close>\<close>

fun includes_js :: "jsstring \<Rightarrow> jsstring \<Rightarrow> bool" where
  "includes_js [] searchString = (searchString = [])"
| "includes_js (c # cs) searchString =
     (take (length searchString) (c # cs) = searchString \<or> includes_js cs searchString)"

text \<open>
  The body of the loop over the lines of \<^verbatim>\<open>edges_translated.csv\<close>: a line whose first two
  fields are numbers gives an edge, and its two numbers are added to the set of nodes.
\<close>

record loadState_client =
  ls_nodes :: "int list"
  ls_edges :: "(int \<times> int) list"

definition loadStep_client :: "loadState_client \<Rightarrow> jsstring \<Rightarrow> loadState_client" where
  "loadStep_client st line =
     (let parts = split COMMA line
      in if length parts < 2 then st
         else (case (parseInt_noRadix (trim (parts ! 0)), parseInt_noRadix (trim (parts ! 1))) of
                 (Some source, Some target) \<Rightarrow>
                   st\<lparr>ls_nodes := set_add target (set_add source (ls_nodes st)),
                      ls_edges := ls_edges st @ [(source, target)]\<rparr>
               | _ \<Rightarrow> st))"

record GraphNode_client =
  id_client :: int
  content_client :: jsstring

record GraphEdge_client =
  index_client :: nat
  source_client :: int
  target_client :: int

record GraphData_client =
  nodes_client :: "GraphNode_client list"
  edges_client :: "GraphEdge_client list"

text \<open>
  \<open>translatedCsv\<close> is the content of \<^verbatim>\<open>edges_translated.csv\<close>, \<open>None\<close> when the file does not
  exist; \<open>linesFile\<close> is the content of \<^verbatim>\<open>lines.csv\<close>. The header is skipped when the first
  line contains \<^verbatim>\<open>source\<close>.
\<close>

definition loadGraphFromCSV_client :: "jsstring option \<Rightarrow> jsstring option \<Rightarrow> GraphData_client" where
  "loadGraphFromCSV_client translatedCsv linesFile =
     (case translatedCsv of
        None \<Rightarrow> \<lparr>nodes_client = [], edges_client = []\<rparr>
      | Some csvContent \<Rightarrow>
          let lineContents = loadLineContents linesFile;
              lines = split NEWLINE (trim csvContent);
              startIndex = (if includes_js (lines ! 0) (js ''source'') then 1 else 0);
              st = foldl loadStep_client \<lparr>ls_nodes = [], ls_edges = []\<rparr> (drop startIndex lines)
          in \<lparr>nodes_client =
                 map (\<lambda>i. \<lparr>id_client = i,
                           content_client =
                             (case (if i < 0 then None else lineContents (nat i)) of
                                None \<Rightarrow> []
                              | Some c \<Rightarrow> c)\<rparr>) (ls_nodes st),
               edges_client =
                 map (\<lambda>(i, e). \<lparr>index_client = i, source_client = fst e, target_client = snd e\<rparr>)
                   (enumerate 0 (ls_edges st))\<rparr>)"

section \<open>Decorating the editor: \<^verbatim>\<open>highlightLines\<close>\<close>

datatype decorationType =
    selectedDecoration
  | directDependencyDecoration
  | indirectDependencyDecoration
  | directDependantDecoration
  | indirectDependantDecoration

text \<open>
  The text editor of the analyzed file, as far as the highlighting touches it: the number of
  lines of its document, the lines every decoration type is set on, and the line last
  revealed. A range is the whole line, and is modelled by the line's index from 0.
\<close>

record textEditor =
  lineCount :: nat
  decorations :: "decorationType \<Rightarrow> nat list"
  revealed :: "nat option"

datatype notice = LineOutOfRange int | ErrorHighlightingLines

text \<open>
  The extension's side: the editor showing the analyzed file when there is one, the warnings
  and the errors shown to the user, and the flag that mutes the selection listener. The timer
  that resets the flag 100 ms after \<^verbatim>\<open>highlightLines\<close> is not modelled.
\<close>

record extension =
  analyzedEditor :: "textEditor option"
  warningMessages :: "notice list"
  errorMessages :: "notice list"
  isUpdatingHighlights :: bool
  highlightsEnabled :: bool

text \<open>\<^verbatim>\<open>document.lineAt(i)\<close> throws when \<open>i\<close> is not the index of a line.\<close>

definition lineAt :: "textEditor \<Rightarrow> int \<Rightarrow> nat option" where
  "lineAt ed i = (if 0 \<le> i \<and> i < int (lineCount ed) then Some (nat i) else None)"

text \<open>\<^verbatim>\<open>ns.map(n => ({ range: editor.document.lineAt(n - 1).range }))\<close>, which throws when one
  access does.\<close>

fun lineRanges :: "textEditor \<Rightarrow> int list \<Rightarrow> nat list option" where
  "lineRanges ed [] = Some []"
| "lineRanges ed (n # ns) =
     (case lineAt ed (n - 1) of
        None \<Rightarrow> None
      | Some r \<Rightarrow> (case lineRanges ed ns of None \<Rightarrow> None | Some rs \<Rightarrow> Some (r # rs)))"

definition setDecorations :: "decorationType \<Rightarrow> nat list \<Rightarrow> textEditor \<Rightarrow> textEditor" where
  "setDecorations d ranges ed = ed\<lparr>decorations := (decorations ed)(d := ranges)\<rparr>"

definition clearEditorDecorations :: "textEditor \<Rightarrow> textEditor" where
  "clearEditorDecorations ed =
     setDecorations selectedDecoration []
       (setDecorations indirectDependantDecoration []
         (setDecorations directDependantDecoration []
           (setDecorations indirectDependencyDecoration []
             (setDecorations directDependencyDecoration [] ed))))"

text \<open>
  What the \<^verbatim>\<open>catch\<close> block does with the extension as the exception left it.
\<close>

definition caught :: "extension \<Rightarrow> extension" where
  "caught ext = ext\<lparr>errorMessages := errorMessages ext @ [ErrorHighlightingLines]\<rparr>"

text \<open>
  The part of \<^verbatim>\<open>highlightLines\<close> after the range check and the clearing of the
  decorations, shared by its versions (the older version clears just before it sets).
\<close>

definition applyHighlights ::
    "extension \<Rightarrow> textEditor \<Rightarrow> int \<Rightarrow> int list \<Rightarrow> int list \<Rightarrow> bool \<Rightarrow> bool \<Rightarrow> extension" where
  "applyHighlights ext ed lineNumber neighbors indirectNeighbors showDependents clearFirst =
     (let n = int (lineCount ed)
      in case lineAt ed (lineNumber - 1) of
           None \<Rightarrow> caught ext
         | Some selectedLine \<Rightarrow>
             (case lineRanges ed (filter (\<lambda>k. k \<ge> 1 \<and> k \<le> n \<and> k \<noteq> lineNumber) neighbors) of
                None \<Rightarrow> caught ext
              | Some directLines \<Rightarrow>
                  (case lineRanges ed
                          (filter (\<lambda>k. k \<ge> 1 \<and> k \<le> n \<and> k \<noteq> lineNumber) indirectNeighbors) of
                     None \<Rightarrow> caught ext
                   | Some indirectLines \<Rightarrow>
                       let directDecoration = (if showDependents then directDependantDecoration
                                               else directDependencyDecoration);
                           indirectDecoration = (if showDependents then indirectDependantDecoration
                                                 else indirectDependencyDecoration);
                           ed0 = (if clearFirst then clearEditorDecorations ed else ed);
                           ed1 = setDecorations directDecoration directLines ed0;
                           ed2 = setDecorations indirectDecoration indirectLines ed1;
                           ed3 = setDecorations selectedDecoration [selectedLine] ed2
                       in (case lineAt ed3 (lineNumber - 1) of
                             None \<Rightarrow> caught (ext\<lparr>analyzedEditor := Some ed3\<rparr>)
                           | Some r \<Rightarrow> ext\<lparr>analyzedEditor := Some (ed3\<lparr>revealed := Some r\<rparr>)\<rparr>))))"

text \<open>
  \<^verbatim>\<open>highlightLines\<close> in the version that accepts line 0. \<open>analyzedEditor\<close> is the editor the
  search among the active and the visible editors ends with.
\<close>

definition highlightLines ::
    "extension \<Rightarrow> int \<Rightarrow> int list \<Rightarrow> int list \<Rightarrow> bool \<Rightarrow> extension" where
  "highlightLines ext0 lineNumber neighbors indirectNeighbors showDependents =
     (let ext = ext0\<lparr>isUpdatingHighlights := True\<rparr>
      in case analyzedEditor ext of
           None \<Rightarrow> ext
         | Some editor \<Rightarrow>
             if lineNumber < 0 \<or> lineNumber > int (lineCount editor) then
               ext\<lparr>warningMessages := warningMessages ext @ [LineOutOfRange lineNumber]\<rparr>
             else let cleared = clearEditorDecorations editor;
                      ext1 = ext\<lparr>analyzedEditor := Some cleared\<rparr>
                  in if lineNumber = 0 then ext1
                     else applyHighlights ext1 cleared lineNumber neighbors indirectNeighbors
                            showDependents False)"

text \<open>\<^verbatim>\<open>highlightLines\<close> in \<^verbatim>\<open>client/src/DependencyAnalysis.ts\<close>, whose lower bound is 1.\<close>

definition highlightLines_client ::
    "extension \<Rightarrow> int \<Rightarrow> int list \<Rightarrow> int list \<Rightarrow> bool \<Rightarrow> extension" where
  "highlightLines_client ext0 lineNumber neighbors indirectNeighbors showDependents =
     (let ext = ext0\<lparr>isUpdatingHighlights := True\<rparr>
      in case analyzedEditor ext of
           None \<Rightarrow> ext
         | Some editor \<Rightarrow>
             if lineNumber < 1 \<or> lineNumber > int (lineCount editor) then
               ext\<lparr>warningMessages := warningMessages ext @ [LineOutOfRange lineNumber]\<rparr>
             else applyHighlights ext editor lineNumber neighbors indirectNeighbors
                    showDependents True)"

text \<open>
  The handler of the view's \<^verbatim>\<open>highlightLines\<close> message in \<^verbatim>\<open>showDependencyGraph\<close>.
\<close>

record highlightMessage =
  msg_lineNumber :: nat
  msg_neighbors :: "nat list"
  msg_indirectNeighbors :: "nat list"
  msg_showDependents :: bool

definition onDidReceiveMessage :: "extension \<Rightarrow> highlightMessage \<Rightarrow> extension" where
  "onDidReceiveMessage ext message =
     (if \<not> highlightsEnabled ext then ext
      else highlightLines ext (int (msg_lineNumber message)) (map int (msg_neighbors message))
             (map int (msg_indirectNeighbors message)) (msg_showDependents message))"

section \<open>The query in the graph view\<close>

text \<open>
  The view holds the graph in Cytoscape.js, which is not part of the repository: its
  traversals are modelled from its documentation. \<^verbatim>\<open>incomers\<close> and \<^verbatim>\<open>outgoers\<close> are the
  sources of the edges into a node and the targets of the edges out of it; \<^verbatim>\<open>predecessors\<close>
  and \<^verbatim>\<open>successors\<close> repeat them, so they are the nodes from which a non-empty path leads to
  the node, and to which one leads from it. A collection is modelled by the set of its node ids,
  and where the script makes an array of a collection the model lists the ids in the order of
  the graph's nodes.
\<close>

definition cyNodes :: "GraphData \<Rightarrow> nat list" where
  "cyNodes g = uniq (map node_lineNumber (nodes g))"

definition cyEdges :: "GraphData \<Rightarrow> (nat \<times> nat) set" where
  "cyEdges g =
     (\<lambda>e. (edge_source e, edge_target e)) `
       {e \<in> set (edges g). edge_source e \<in> set (cyNodes g) \<and> edge_target e \<in> set (cyNodes g)}"

definition incomers :: "GraphData \<Rightarrow> nat \<Rightarrow> nat set" where
  "incomers g n = fst ` {p \<in> cyEdges g. snd p = n}"

definition outgoers :: "GraphData \<Rightarrow> nat \<Rightarrow> nat set" where
  "outgoers g n = snd ` {p \<in> cyEdges g. fst p = n}"

definition predecessors :: "GraphData \<Rightarrow> nat \<Rightarrow> nat set" where
  "predecessors g n = fst ` {p \<in> (cyEdges g)\<^sup>+. snd p = n}"

definition successors :: "GraphData \<Rightarrow> nat \<Rightarrow> nat set" where
  "successors g n = snd ` {p \<in> (cyEdges g)\<^sup>+. fst p = n}"

text \<open>\<^verbatim>\<open>node.data('nodeCategories') || []\<close>\<close>

definition categoriesOf :: "GraphData \<Rightarrow> nat \<Rightarrow> category list" where
  "categoriesOf g n =
     (case find (\<lambda>nd. node_lineNumber nd = n) (nodes g) of
        None \<Rightarrow> []
      | Some nd \<Rightarrow> node_categories nd)"

datatype cssClass =
    cls_selected
  | cls_direct
  | cls_indirect
  | cls_direct_dependent
  | cls_indirect_dependent
  | cls_dimmed
  | cls_filtered

text \<open>
  The state of the script: the two modes, the selected node, the filter object, which has a
  key for four of the categories only, and the classes of the nodes.
\<close>

record webview =
  showIndirect :: bool
  showDependents :: bool
  selectedNode :: "nat option"
  filterState :: "category \<rightharpoonup> bool"
  nodeClasses :: "nat \<Rightarrow> cssClass set"

definition initialFilterState :: "category \<rightharpoonup> bool" where
  "initialFilterState =
     [ExplicitAssumption \<mapsto> True, ImplicitAssumption \<mapsto> True,
      ExplicitAssertion \<mapsto> True, ImplicitAssertion \<mapsto> True]"

text \<open>The categories that have a checkbox.\<close>

definition checkboxes :: "category list" where
  "checkboxes = [ExplicitAssumption, ImplicitAssumption, ExplicitAssertion, ImplicitAssertion]"

text \<open>\<^verbatim>\<open>applyFilters\<close>: only a highlighted dependency that is not the selected node is touched.\<close>

definition applyFilters :: "GraphData \<Rightarrow> webview \<Rightarrow> webview" where
  "applyFilters g st =
     st\<lparr>nodeClasses := (\<lambda>n.
           let cls = nodeClasses st n;
               categories = categoriesOf g n;
               isHighlightedDependency =
                 (cls_direct \<in> cls \<or> cls_indirect \<in> cls \<or> cls_direct_dependent \<in> cls
                  \<or> cls_indirect_dependent \<in> cls)
           in if n \<notin> set (cyNodes g) then cls
              else if \<not> isHighlightedDependency \<or> cls_selected \<in> cls then cls
              else let isVisible = (\<exists>c \<in> set categories. filterState st c = Some True)
                   in if isVisible then cls - {cls_filtered} else insert cls_filtered cls)\<rparr>"

definition related :: "GraphData \<Rightarrow> webview \<Rightarrow> nat \<Rightarrow> nat set" where
  "related g st node =
     (if showDependents st then
        (if showIndirect st then successors g node else outgoers g node)
      else
        (if showIndirect st then predecessors g node else incomers g node))"

definition directRelated :: "GraphData \<Rightarrow> webview \<Rightarrow> nat \<Rightarrow> nat set" where
  "directRelated g st node =
     (if showDependents st then outgoers g node else incomers g node)"

text \<open>
  \<^verbatim>\<open>highlightNodeAndDependencies(node, sendMessage)\<close>: the new state of the view, and the
  message posted to the extension when there is one. \<open>None\<close> for the node is a missing node,
  as is an id that the graph does not have.
\<close>

definition highlightNodeAndDependencies ::
    "GraphData \<Rightarrow> webview \<Rightarrow> nat option \<Rightarrow> bool \<Rightarrow> webview \<times> highlightMessage option" where
  "highlightNodeAndDependencies g st nodeOpt sendMessage =
     (case nodeOpt of
        None \<Rightarrow> (st, None)
      | Some node \<Rightarrow>
          if node \<notin> set (cyNodes g) then (st, None)
          else let rel = related g st node;
                   direct = directRelated g st node;
                   indirectClass = (if showDependents st then cls_indirect_dependent else cls_indirect);
                   directClass = (if showDependents st then cls_direct_dependent else cls_direct);
                   st1 = st\<lparr>nodeClasses := (\<lambda>n.
                           if n \<notin> set (cyNodes g) then nodeClasses st n
                           else (if n = node \<or> n \<in> rel then {} else {cls_dimmed})
                                \<union> (if showIndirect st \<and> n \<in> rel - direct then {indirectClass} else {})
                                \<union> (if n \<in> direct then {directClass} else {})
                                \<union> (if n = node then {cls_selected} else {}))\<rparr>;
                   st2 = applyFilters g st1
               in if sendMessage then
                    (let directNeighbors =
                           filter (\<lambda>n. n \<in> direct \<and> cls_filtered \<notin> nodeClasses st2 n) (cyNodes g);
                         indirectNeighbors =
                           (if showIndirect st then
                              filter (\<lambda>n. n \<in> rel - direct \<and> cls_filtered \<notin> nodeClasses st2 n)
                                (cyNodes g)
                            else [])
                     in (st2, Some \<lparr>msg_lineNumber = node, msg_neighbors = directNeighbors,
                                    msg_indirectNeighbors = indirectNeighbors,
                                    msg_showDependents = showDependents st\<rparr>))
                  else (st2, None))"

text \<open>\<^verbatim>\<open>enableShowIndirect\<close>, which every change of the filter calls.\<close>

definition enableShowIndirect :: "webview \<Rightarrow> webview" where
  "enableShowIndirect st = (if \<not> showIndirect st then st\<lparr>showIndirect := True\<rparr> else st)"

text \<open>The \<^verbatim>\<open>change\<close> listener of the checkbox of a category.\<close>

definition checkboxChange ::
    "GraphData \<Rightarrow> webview \<Rightarrow> category \<Rightarrow> bool \<Rightarrow> webview \<times> highlightMessage option" where
  "checkboxChange g st category checked =
     (let st1 = st\<lparr>filterState := (filterState st)(category \<mapsto> checked)\<rparr>;
          st2 = enableShowIndirect st1;
          st3 = applyFilters g st2
      in case selectedNode st3 of
           None \<Rightarrow> (st3, None)
         | Some node \<Rightarrow>
             if node \<in> set (cyNodes g) then highlightNodeAndDependencies g st3 (Some node) True
             else (st3, None))"

text \<open>The buttons that check and clear the four checkboxes together.\<close>

definition setAllCheckboxes ::
    "GraphData \<Rightarrow> webview \<Rightarrow> bool \<Rightarrow> webview \<times> highlightMessage option" where
  "setAllCheckboxes g st checked =
     (let st1 = st\<lparr>filterState :=
                    foldl (\<lambda>fs category. fs(category \<mapsto> checked)) (filterState st) checkboxes\<rparr>;
          st2 = enableShowIndirect st1;
          st3 = applyFilters g st2
      in case selectedNode st3 of
           None \<Rightarrow> (st3, None)
         | Some node \<Rightarrow>
             if node \<in> set (cyNodes g) then highlightNodeAndDependencies g st3 (Some node) True
             else (st3, None))"

text \<open>The click on a node of the graph.\<close>

definition nodeClick :: "GraphData \<Rightarrow> webview \<Rightarrow> nat \<Rightarrow> webview \<times> highlightMessage option" where
  "nodeClick g st node =
     (if selectedNode st = Some node then
        (st\<lparr>selectedNode := None,
            nodeClasses := (\<lambda>n. if n \<in> set (cyNodes g) then {} else nodeClasses st n)\<rparr>,
         Some \<lparr>msg_lineNumber = 0, msg_neighbors = [], msg_indirectNeighbors = [],
               msg_showDependents = showDependents st\<rparr>)
      else highlightNodeAndDependencies g (st\<lparr>selectedNode := Some node\<rparr>) (Some node) True)"

text \<open>The lines a message reports: the direct and the indirect ones.\<close>

definition reportedLines :: "highlightMessage option \<Rightarrow> nat set" where
  "reportedLines m =
     (case m of
        None \<Rightarrow> {}
      | Some message \<Rightarrow> set (msg_neighbors message) \<union> set (msg_indirectNeighbors message))"

section \<open>Invariants of the loops\<close>

text \<open>
  What the loop over \<^verbatim>\<open>edges.csv\<close> keeps true: the raw edges are pairwise different, none
  is a self-edge, and the key of each is in \<open>seenEdgeKeys\<close>.
\<close>

definition rawInv :: "edgeState \<Rightarrow> bool" where
  "rawInv st = (distinct (rawEdges st)
      \<and> (\<forall>e \<in> set (rawEdges st). fst e \<noteq> snd e \<and> edgeKey (fst e) (snd e) \<in> seenEdgeKeys st))"

text \<open>The parents of a line in \<open>parentMap\<close>, as a set.\<close>

definition parentsOf :: "(nat \<times> nat list) list \<Rightarrow> nat \<Rightarrow> nat set" where
  "parentsOf pm t = (case map_of pm t of None \<Rightarrow> {} | Some ps \<Rightarrow> set ps)"

text \<open>
  A line at which a resolution stops: it does not carry \<open>ExplicitAssertion\<close>, or it has no
  parents.
\<close>

definition terminal :: "(nat \<rightharpoonup> category list) \<Rightarrow> (nat \<times> nat list) list \<Rightarrow> nat \<Rightarrow> bool" where
  "terminal nc pm r =
     (\<not> shouldBypass (case nc r of None \<Rightarrow> [] | Some cs \<Rightarrow> cs) \<or> parentsOf pm r = {})"

text \<open>
  What the loop that rebuilds the edges keeps true, for a property \<open>P\<close> of the real sources.
\<close>

definition rebInv :: "(nat \<Rightarrow> bool) \<Rightarrow> rebuildState \<Rightarrow> bool" where
  "rebInv P st =
     (distinct (rs_edges st)
      \<and> (\<forall>e \<in> set (rs_edges st).
            fst e \<noteq> snd e \<and> edgeKey (fst e) (snd e) \<in> resolvedEdgeKeys st \<and> P (fst e)
            \<and> fst e \<in> set (rs_nodes st) \<and> snd e \<in> set (rs_nodes st)))"

text \<open>What the loop of \<^verbatim>\<open>translateEdgesToLineNumbers\<close> keeps true of the rows after the header.\<close>

definition trInv :: "translateState \<Rightarrow> bool" where
  "trInv st = (translatedEdges st \<noteq> [] \<and> distinct (drop 1 (translatedEdges st))
      \<and> set (drop 1 (translatedEdges st)) \<subseteq> seenEdges st)"

text \<open>The lines of a neighbour array that \<^verbatim>\<open>highlightLines\<close> decorates, as indices from 0.\<close>

definition inRange :: "textEditor \<Rightarrow> int \<Rightarrow> int list \<Rightarrow> nat list" where
  "inRange ed ln ns = map (\<lambda>k. nat (k - 1)) (filter (\<lambda>k. k \<ge> 1 \<and> k \<le> int (lineCount ed) \<and> k \<noteq> ln) ns)"

text \<open>A node is visible under a filter when one of its categories is enabled.\<close>

definition isVisible :: "GraphData \<Rightarrow> (category \<rightharpoonup> bool) \<Rightarrow> nat \<Rightarrow> bool" where
  "isVisible g fs n = (\<exists>c \<in> set (categoriesOf g n). fs c = Some True)"

section \<open>Example inputs\<close>

text \<open>
  A file \<^verbatim>\<open>a.vpr\<close> with an explicit assertion on line 5, proved from an implicit assumption
  on line 2, and an implicit assertion on line 7 that uses line 5.
\<close>

definition example_fileName :: jsstring where
  "example_fileName = js ''a.vpr''"

definition example_nodesCsv :: jsstring where
  "example_nodesCsv = join NEWLINE
        [js ''id#type#subtype#a#b#c#position'',
         js ''n1#Assertion#Explicit#x#y#z#a.vpr @ line 5'',
         js ''n2#Assumption#Implicit#x#y#z#a.vpr @ line 2'',
         js ''n7#Assertion#Implicit#x#y#z#a.vpr @ line 7'']"

definition example_edgesCsv :: jsstring where
  "example_edgesCsv = join NEWLINE [js ''source,target,label'', js ''n2,n1,dep'', js ''n1,n7,dep'']"

definition example_files :: csvFiles where
  "example_files =
     \<lparr>csvExists = True, linesCsv = None,
      nodesCsv = Some example_nodesCsv, edgesCsv = Some example_edgesCsv\<rparr>"

definition example_nodeMaps :: nodeMaps where
  "example_nodeMaps =
     \<lparr>nodeCategories = [5 \<mapsto> [ExplicitAssertion], 2 \<mapsto> [ImplicitAssumption], 7 \<mapsto> [ImplicitAssertion]],
       nodeIdToLine = [js ''n1'' \<mapsto> 5, js ''n2'' \<mapsto> 2, js ''n7'' \<mapsto> 7],
       nodeIdToFile = [js ''n1'' \<mapsto> js ''a.vpr'', js ''n2'' \<mapsto> js ''a.vpr'', js ''n7'' \<mapsto> js ''a.vpr'']\<rparr>"

text \<open>Two edge records between the same two nodes, with different labels.\<close>

definition dup_edgesCsv :: jsstring where
  "dup_edgesCsv = join NEWLINE [js ''source,target,label'', js ''n2,n1,a'', js ''n2,n1,b'']"

definition dup_files :: csvFiles where
  "dup_files =
     \<lparr>csvExists = True, linesCsv = None,
      nodesCsv = Some example_nodesCsv, edgesCsv = Some dup_edgesCsv\<rparr>"

text \<open>
  An explicit assertion on line 5 of \<^verbatim>\<open>a.vpr\<close> that depends on line 2 of another file,
  \<^verbatim>\<open>b.vpr\<close>: the rows of \<^verbatim>\<open>nodes.csv\<close> with the position as field 6, and with the position
  as field 5 for the older version.
\<close>

definition cross_nodesCsv :: jsstring where
  "cross_nodesCsv = join NEWLINE
        [js ''id#type#subtype#a#b#c#position'',
         js ''n1#Assertion#Explicit#x#y#z#a.vpr @ line 5'',
         js ''n2#Assumption#Implicit#x#y#z#b.vpr @ line 2'']"

definition cross_nodesCsv_client :: jsstring where
  "cross_nodesCsv_client = join NEWLINE
        [js ''id#type#subtype#a#b#position'',
         js ''n1#Assertion#Explicit#x#y#a.vpr @ line 5'',
         js ''n2#Assumption#Implicit#x#y#b.vpr @ line 2'']"

definition cross_edgesCsv :: jsstring where
  "cross_edgesCsv = join NEWLINE [js ''source,target,label'', js ''n2,n1,dep'']"

definition cross_files :: csvFiles where
  "cross_files =
     \<lparr>csvExists = True, linesCsv = None,
      nodesCsv = Some cross_nodesCsv, edgesCsv = Some cross_edgesCsv\<rparr>"

definition cross_nodeMaps :: nodeMaps where
  "cross_nodeMaps =
     \<lparr>nodeCategories = [5 \<mapsto> [ExplicitAssertion]],
       nodeIdToLine = [js ''n1'' \<mapsto> 5, js ''n2'' \<mapsto> 2],
       nodeIdToFile = [js ''n1'' \<mapsto> js ''a.vpr'', js ''n2'' \<mapsto> js ''b.vpr'']\<rparr>"

text \<open>Two explicit assertions, on lines 3 and 4, each recorded as established using the other.\<close>

definition cycle_categories :: "nat \<rightharpoonup> category list" where
  "cycle_categories = [3 \<mapsto> [ExplicitAssertion], 4 \<mapsto> [ExplicitAssertion]]"

definition cycle_rawEdges :: "(nat \<times> nat) list" where
  "cycle_rawEdges = [(3, 4), (4, 3)]"

text \<open>A chain of three lines in the view, the last one selected, in direct-only mode.\<close>

definition chain_graph :: GraphData where
  "chain_graph =
     \<lparr>nodes = [\<lparr>node_lineNumber = 2, node_categories = [ExplicitAssumption], node_content = [],
                 externalDependencyCount = 0, externalDependencies = None\<rparr>,
               \<lparr>node_lineNumber = 5, node_categories = [ImplicitAssertion], node_content = [],
                 externalDependencyCount = 0, externalDependencies = None\<rparr>,
               \<lparr>node_lineNumber = 7, node_categories = [ImplicitAssertion], node_content = [],
                 externalDependencyCount = 0, externalDependencies = None\<rparr>],
      edges = [\<lparr>edge_index = 0, edge_source = 2, edge_target = 5\<rparr>,
               \<lparr>edge_index = 1, edge_source = 5, edge_target = 7\<rparr>]\<rparr>"

definition chain_view :: webview where
  "chain_view =
     \<lparr>showIndirect = False, showDependents = False, selectedNode = Some 7,
      filterState = initialFilterState, nodeClasses = (\<lambda>n. {})\<rparr>"

text \<open>An editor on a document of three lines, with line 2 decorated as selected.\<close>

definition example_editor :: textEditor where
  "example_editor =
     \<lparr>lineCount = 3, decorations = (\<lambda>d. [])(selectedDecoration := [1]), revealed = Some 1\<rparr>"

definition example_extension :: extension where
  "example_extension =
     \<lparr>analyzedEditor = Some example_editor, warningMessages = [], errorMessages = [],
      isUpdatingHighlights = False, highlightsEnabled = True\<rparr>"

section \<open>Line-content records round-trip\<close>

lemma unescape_escape: "unescapeQuotes (escapeQuotes s) = s"
proof (induction s)
  case Nil
  show ?case by (simp add: escapeQuotes_def)
next
  case (Cons c s)
  show ?case
  proof (cases "c = DQUOTE")
    case True
    with Cons show ?thesis by (simp add: escapeQuotes_def)
  next
    case False
    have e: "escapeQuotes (c # s) = c # escapeQuotes s"
      using False by (simp add: escapeQuotes_def)
    have "unescapeQuotes (c # escapeQuotes s) = c # unescapeQuotes (escapeQuotes s)"
      using False by (cases "escapeQuotes s") simp_all
    with Cons e show ?thesis by simp
  qed
qed

lemma set_escapeQuotes: "set (escapeQuotes s) = set s"
  by (induction s) (auto simp: escapeQuotes_def)

lemma show_nat_digits: "c \<in> set (show_nat n) \<Longrightarrow> isDigit c"
proof (induction n arbitrary: c rule: show_nat.induct)
  case (1 n)
  show ?case
  proof (cases "n < 10")
    case True
    with "1.prems" show ?thesis by (simp add: show_nat.simps[of n] isDigit_def)
  next
    case False
    with "1.prems" "1.IH" show ?thesis
      by (auto simp: show_nat.simps[of n] isDigit_def)
  qed
qed

lemma show_nat_nonempty: "show_nat n \<noteq> []"
  by (subst show_nat.simps) simp

lemma parseInt_append: "parseInt (ds @ [c]) = 10 * parseInt ds + (c - 48)"
  by (simp add: parseInt_def)

lemma parseInt_show_nat: "parseInt (show_nat n) = n"
proof (induction n rule: show_nat.induct)
  case (1 n)
  show ?case
  proof (cases "n < 10")
    case True
    then show ?thesis by (simp add: show_nat.simps[of n] parseInt_def)
  next
    case False
    with "1.IH" show ?thesis
      by (simp add: show_nat.simps[of n] parseInt_append)
  qed
qed

lemma beforeLastQuote_snoc: "beforeLastQuote (e @ [DQUOTE]) = e"
  by (simp add: beforeLastQuote_def)

lemma matchLineRecord_encoded:
  assumes "\<forall>c \<in> set e. \<not> isLineTerminator c"
  shows "matchLineRecord (show_nat k @ [COMMA, DQUOTE] @ e @ [DQUOTE]) = Some (show_nat k, e)"
proof -
  have nd: "\<not> isDigit COMMA" by (simp add: isDigit_def COMMA_def)
  have tw: "takeWhile isDigit (show_nat k @ COMMA # DQUOTE # e @ [DQUOTE]) = show_nat k"
    using nd show_nat_digits by (simp add: takeWhile_append2)
  have dw: "dropWhile isDigit (show_nat k @ COMMA # DQUOTE # e @ [DQUOTE]) = COMMA # DQUOTE # e @ [DQUOTE]"
    using nd show_nat_digits by (simp add: dropWhile_append2)
  have q: "\<not> isLineTerminator DQUOTE" by (simp add: isLineTerminator_def DQUOTE_def)
  have seg: "takeWhile (\<lambda>c. \<not> isLineTerminator c) (e @ [DQUOTE]) = e @ [DQUOTE]"
    using assms q by (intro takeWhile_eq_all_conv[THEN iffD2]) auto
  show ?thesis
    using tw dw seg show_nat_nonempty[of k]
    by (simp add: matchLineRecord_def Let_def beforeLastQuote_snoc)
qed

text \<open>
  Claim C8, as amended. \<^verbatim>\<open>exportLinesToCSV\<close> trims a line before it escapes it, and the
  expression that reads a record back stops at a line terminator. So for every source line whose
  trimmed text holds no line terminator (carriage return, U+2028, U+2029), encoding the line as
  record number \<open>index + 1\<close> and decoding the record gives that number and the trimmed text
  exactly, double quotes included.
\<close>

theorem line_content_round_trip:
  assumes "\<forall>c \<in> set (trim line). \<not> isLineTerminator c"
  shows "decodeLine (encodeLine index line) = Some (index + 1, trim line)"
proof -
  have "\<forall>c \<in> set (escapeQuotes (trim line)). \<not> isLineTerminator c"
    using assms by (simp add: set_escapeQuotes)
  from matchLineRecord_encoded[OF this, of "index + 1"]
  show ?thesis
    by (simp add: decodeLine_def encodeLine_def Let_def parseInt_show_nat unescape_escape)
qed

text \<open>The line \<^verbatim>\<open>say "hi"\<close> as the fourth line of a file.\<close>

theorem line_content_round_trip_witness:
  "list_all (\<lambda>c. \<not> isLineTerminator c) (trim (js ''say \"hi\"''))
   \<and> decodeLine (encodeLine 3 (js ''say \"hi\"'')) = Some (4, js ''say \"hi\"'')"
proof -
  have h: "\<forall>c \<in> set (trim (js ''say \"hi\"'')). \<not> isLineTerminator c"
    by (simp add: trim_def isWhiteSpace_def isLineTerminator_def)
  have t: "trim (js ''say \"hi\"'') = js ''say \"hi\"''"
    by (simp add: trim_def isWhiteSpace_def)
  from line_content_round_trip[OF h, where index = 3] h t show ?thesis
    by (simp add: list_all_iff)
qed

text \<open>
  Claim C8 as stated fails. The indented line \<^verbatim>\<open> a\<close> (a space, then \<^verbatim>\<open>a\<close>) comes back
  without its indentation, and the line \<^verbatim>\<open>a"\<close>, carriage return, \<^verbatim>\<open>b\<close>, which trimming leaves
  as it is, comes back cut at the carriage return.
\<close>

theorem line_content_round_trip_counterexample:
  "decodeLine (encodeLine 0 [32, 97]) = Some (1, [97])
   \<and> trim [97, 34, 13, 98] = [97, 34, 13, 98]
   \<and> decodeLine (encodeLine 0 [97, 34, 13, 98]) = Some (1, [97, 34])"
  by (simp add: decodeLine_def encodeLine_def matchLineRecord_def Let_def trim_def isWhiteSpace_def
      escapeQuotes_def show_nat.simps isDigit_def COMMA_def DQUOTE_def isLineTerminator_def
      beforeLastQuote_def parseInt_def)

text \<open>
  The same through the two files: for line \<open>i\<close> (from 0) of a file, if its trimmed text holds
  no line terminator, the line contents that \<^verbatim>\<open>loadGraphFromCSV\<close> reads from the file
  written by \<^verbatim>\<open>exportLinesToCSV\<close> give the trimmed text at line number \<open>i + 1\<close>.
\<close>

lemma split_nonempty: "split sep s \<noteq> []"
  by (induction s) (auto split: list.splits)

lemma split_no_sep: "l \<in> set (split sep s) \<Longrightarrow> sep \<notin> set l"
proof (induction s arbitrary: l)
  case Nil
  then show ?case by simp
next
  case (Cons c s)
  show ?case
  proof (cases "c = sep")
    case True
    with Cons show ?thesis by auto
  next
    case False
    obtain p ps where ps: "split sep s = p # ps"
      using split_nonempty[of sep s] by (cases "split sep s") auto
    with Cons.prems False have "l = c # p \<or> l \<in> set ps" by simp
    with Cons.IH ps False show ?thesis by auto
  qed
qed

lemma split_single: "sep \<notin> set p \<Longrightarrow> split sep p = [p]"
  by (induction p) auto

lemma split_append_sep: "sep \<notin> set p \<Longrightarrow> split sep (p @ sep # rest) = p # split sep rest"
  by (induction p) auto

lemma split_join:
  "rs \<noteq> [] \<Longrightarrow> \<forall>r \<in> set rs. sep \<notin> set r \<Longrightarrow> split sep (join sep rs) = rs"
  by (induction sep rs rule: join.induct) (simp_all add: split_single split_append_sep)

lemma hd_join: "rs \<noteq> [] \<Longrightarrow> hd rs \<noteq> [] \<Longrightarrow> hd (join sep rs) = hd (hd rs)"
  by (induction sep rs rule: join.induct) simp_all

lemma join_nonempty_last: "rs \<noteq> [] \<Longrightarrow> last rs \<noteq> [] \<Longrightarrow> join sep rs \<noteq> []"
  by (induction sep rs rule: join.induct) simp_all

lemma last_join: "rs \<noteq> [] \<Longrightarrow> last rs \<noteq> [] \<Longrightarrow> last (join sep rs) = last (last rs)"
proof (induction sep rs rule: join.induct)
  case (3 sep p q ps)
  then have "join sep (q # ps) \<noteq> []" by (intro join_nonempty_last) simp_all
  with 3 show ?case by simp
qed simp_all

lemma join_nonempty: "rs \<noteq> [] \<Longrightarrow> hd rs \<noteq> [] \<Longrightarrow> join sep rs \<noteq> []"
  by (induction sep rs rule: join.induct) simp_all

lemma trim_id:
  assumes "s \<noteq> []" "\<not> isWhiteSpace (hd s)" "\<not> isWhiteSpace (last s)"
  shows "trim s = s"
proof -
  from assms have a: "dropWhile isWhiteSpace s = s" by (cases s) auto
  from assms have "rev s \<noteq> []" "\<not> isWhiteSpace (hd (rev s))" by (simp_all add: hd_rev)
  then have b: "dropWhile isWhiteSpace (rev s) = rev s" by (cases "rev s") auto
  show ?thesis by (simp add: trim_def a b)
qed

lemma set_trim: "set (trim s) \<subseteq> set s"
proof -
  have "set (dropWhile P xs) \<subseteq> set xs" for P and xs :: "nat list"
    by (auto dest: set_dropWhileD)
  from this[of isWhiteSpace "rev (dropWhile isWhiteSpace s)"] this[of isWhiteSpace s]
  show ?thesis by (auto simp: trim_def)
qed

lemma encodeLine_no_newline:
  assumes "NEWLINE \<notin> set line"
  shows "NEWLINE \<notin> set (encodeLine i line)"
proof -
  have "NEWLINE \<notin> set (show_nat (i + 1))"
    using show_nat_digits[of NEWLINE "i + 1"] by (auto simp: isDigit_def NEWLINE_def)
  moreover have "NEWLINE \<notin> set (escapeQuotes (trim line))"
    using assms set_trim[of line] by (auto simp: set_escapeQuotes)
  ultimately show ?thesis
    by (simp add: encodeLine_def Let_def NEWLINE_def COMMA_def DQUOTE_def)
qed

lemma encodeLine_ends:
  "encodeLine i line \<noteq> []"
  "\<not> isWhiteSpace (hd (encodeLine i line))"
  "\<not> isWhiteSpace (last (encodeLine i line))"
proof -
  obtain d ds where d: "show_nat (i + 1) = d # ds"
    using show_nat_nonempty[of "i + 1"] by (cases "show_nat (i + 1)") auto
  then have "isDigit d" using show_nat_digits[of d "i + 1"] by simp
  then have "\<not> isWhiteSpace d" by (auto simp: isDigit_def isWhiteSpace_def)
  with d show "encodeLine i line \<noteq> []" "\<not> isWhiteSpace (hd (encodeLine i line))"
    by (simp_all add: encodeLine_def Let_def)
  show "\<not> isWhiteSpace (last (encodeLine i line))"
    by (simp add: encodeLine_def Let_def DQUOTE_def isWhiteSpace_def)
qed

lemma decodeLine_key:
  "decodeLine (encodeLine j line) = None \<or> (\<exists>c. decodeLine (encodeLine j line) = Some (j + 1, c))"
proof -
  have nd: "\<not> isDigit COMMA" by (simp add: isDigit_def COMMA_def)
  let ?rest = "escapeQuotes (trim line) @ [DQUOTE]"
  have tw: "takeWhile isDigit (show_nat (j + 1) @ COMMA # DQUOTE # ?rest) = show_nat (j + 1)"
    using nd show_nat_digits by (simp add: takeWhile_append2)
  have dw: "dropWhile isDigit (show_nat (j + 1) @ COMMA # DQUOTE # ?rest) = COMMA # DQUOTE # ?rest"
    using nd show_nat_digits by (simp add: dropWhile_append2)
  show ?thesis
    using tw dw
    by (auto simp: decodeLine_def encodeLine_def matchLineRecord_def Let_def parseInt_show_nat
        split: option.splits)
qed

lemma records_untouched:
  "k \<le> n \<Longrightarrow>
   foldl lineStep m (map (\<lambda>(index, line). encodeLine index line) (enumerate n ls)) k = m k"
proof (induction ls arbitrary: n m)
  case Nil
  then show ?case by simp
next
  case (Cons l ls)
  from decodeLine_key[of n l] Cons.prems have "lineStep m (encodeLine n l) k = m k"
    by (auto simp: lineStep_def)
  with Cons.IH[of "Suc n" "lineStep m (encodeLine n l)"] Cons.prems show ?case by simp
qed

lemma records_lookup:
  "i < length ls \<Longrightarrow> decodeLine (encodeLine (n + i) (ls ! i)) = Some (n + i + 1, c) \<Longrightarrow>
   foldl lineStep m (map (\<lambda>(index, line). encodeLine index line) (enumerate n ls)) (n + i + 1)
     = Some c"
proof (induction ls arbitrary: n m i)
  case Nil
  then show ?case by simp
next
  case (Cons l ls)
  show ?case
  proof (cases i)
    case 0
    with Cons.prems have "lineStep m (encodeLine n l) (n + 1) = Some c"
      by (simp add: lineStep_def)
    with records_untouched[of "n + 1" "Suc n" "lineStep m (encodeLine n l)" ls] 0 show ?thesis
      by simp
  next
    case (Suc i')
    with Cons.prems have "i' < length ls"
      "decodeLine (encodeLine (Suc n + i') (ls ! i')) = Some (Suc n + i' + 1, c)"
      by simp_all
    from Cons.IH[OF this, of "lineStep m (encodeLine n l)"] Suc show ?thesis by simp
  qed
qed

lemma export_load_round_trip:
  assumes i: "i < length (split NEWLINE fileContent)"
    and lt: "\<forall>c \<in> set (trim (split NEWLINE fileContent ! i)). \<not> isLineTerminator c"
  shows "loadLineContents (Some (exportLinesToCSV fileContent)) (i + 1)
           = Some (trim (split NEWLINE fileContent ! i))"
proof -
  let ?lines = "split NEWLINE fileContent"
  let ?records = "map (\<lambda>(index, line). encodeLine index line) (enumerate 0 ?lines)"
  have ne: "?records \<noteq> []"
    using split_nonempty[of NEWLINE fileContent] by (cases "split NEWLINE fileContent") auto
  have nonl: "\<forall>r \<in> set ?records. NEWLINE \<notin> set r"
  proof
    fix r assume "r \<in> set ?records"
    then obtain j l where r: "r = encodeLine j l" and "(j, l) \<in> set (enumerate 0 ?lines)"
      by auto
    then have "l \<in> set ?lines" by (auto simp: in_set_enumerate_eq)
    then have "NEWLINE \<notin> set l" by (rule split_no_sep)
    then show "NEWLINE \<notin> set r" unfolding r by (rule encodeLine_no_newline)
  qed
  have hd_last: "hd ?records \<noteq> []" "last ?records \<noteq> []"
    "\<not> isWhiteSpace (hd (hd ?records))" "\<not> isWhiteSpace (last (last ?records))"
  proof -
    obtain j l where "hd ?records = encodeLine j l"
      using ne by (cases "enumerate 0 ?lines") auto
    then show "hd ?records \<noteq> []" "\<not> isWhiteSpace (hd (hd ?records))"
      by (simp_all add: encodeLine_ends)
    have "last ?records \<in> set ?records" using ne by (rule last_in_set)
    then obtain j' l' where "last ?records = encodeLine j' l'" by auto
    then show "last ?records \<noteq> []" "\<not> isWhiteSpace (last (last ?records))"
      by (simp_all add: encodeLine_ends)
  qed
  have "trim (join NEWLINE ?records) = join NEWLINE ?records"
    using ne hd_last by (intro trim_id) (simp_all add: join_nonempty hd_join last_join)
  moreover have "split NEWLINE (join NEWLINE ?records) = ?records"
    using ne nonl by (rule split_join)
  ultimately have "loadLineContents (Some (exportLinesToCSV fileContent))
      = foldl lineStep Map.empty ?records"
    by (simp add: loadLineContents_def exportLinesToCSV_def Let_def lineStep_def)
  moreover have "decodeLine (encodeLine i (?lines ! i)) = Some (i + 1, trim (?lines ! i))"
  proof -
    have "\<forall>c \<in> set (escapeQuotes (trim (?lines ! i))). \<not> isLineTerminator c"
      using lt by (simp add: set_escapeQuotes)
    from matchLineRecord_encoded[OF this, of "i + 1"]
    show ?thesis
      by (simp add: decodeLine_def encodeLine_def Let_def parseInt_show_nat unescape_escape)
  qed
  then have "foldl lineStep Map.empty ?records (0 + i + 1) = Some (trim (?lines ! i))"
    using i by (intro records_lookup) simp_all
  ultimately show ?thesis by simp
qed

section \<open>The raw edges\<close>

lemma set_set_add: "set (set_add x xs) = insert x (set xs)"
  by (auto simp: set_add_def)

lemma distinct_set_add: "distinct xs \<Longrightarrow> distinct (set_add x xs)"
  by (auto simp: set_add_def)

lemma edgeStep_cases:
  "(rawEdges (edgeStep a nm st line) = rawEdges st
      \<and> seenEdgeKeys (edgeStep a nm st line) = seenEdgeKeys st)
   \<or> (\<exists>s t. length (split COMMA line) \<ge> 2
          \<and> nodeIdToLine nm (trim (split COMMA line ! 0)) = Some s
          \<and> nodeIdToFile nm (trim (split COMMA line ! 0)) = Some a
          \<and> nodeIdToLine nm (trim (split COMMA line ! 1)) = Some t
          \<and> nodeIdToFile nm (trim (split COMMA line ! 1)) = Some a
          \<and> s \<noteq> t
          \<and> edgeKey s t \<notin> seenEdgeKeys st
          \<and> rawEdges (edgeStep a nm st line) = rawEdges st @ [(s, t)]
          \<and> seenEdgeKeys (edgeStep a nm st line) = insert (edgeKey s t) (seenEdgeKeys st))"
  unfolding edgeStep_def Let_def
  by (auto split: option.splits)

lemma rawInv_step:
  assumes "rawInv st"
  shows "rawInv (edgeStep a nm st line)"
proof -
  from edgeStep_cases[of a nm st line]
  consider "rawEdges (edgeStep a nm st line) = rawEdges st"
      "seenEdgeKeys (edgeStep a nm st line) = seenEdgeKeys st"
    | s t where "s \<noteq> t" "edgeKey s t \<notin> seenEdgeKeys st"
      "rawEdges (edgeStep a nm st line) = rawEdges st @ [(s, t)]"
      "seenEdgeKeys (edgeStep a nm st line) = insert (edgeKey s t) (seenEdgeKeys st)"
    by blast
  then show ?thesis
  proof cases
    case 1
    with assms show ?thesis by (simp add: rawInv_def)
  next
    case 2
    from assms 2(2) have "(s, t) \<notin> set (rawEdges st)"
      by (force simp: rawInv_def)
    with assms 2 show ?thesis by (simp add: rawInv_def)
  qed
qed

lemma rawInv_foldl: "rawInv st \<Longrightarrow> rawInv (foldl (edgeStep a nm) st rows)"
  by (induction rows arbitrary: st) (auto intro: rawInv_step)

lemma rawInv_loadEdges: "rawInv (loadEdges a nm csv)"
proof -
  have "rawInv \<lparr>externalDependenciesByFile = [], rawEdges = [], seenEdgeKeys = {}\<rparr>"
    by (simp add: rawInv_def)
  then show ?thesis
    by (cases csv) (simp_all add: loadEdges_def rawInv_foldl)
qed

lemma rawEdges_origin_foldl:
  "e \<in> set (rawEdges (foldl (edgeStep a nm) st rows)) \<Longrightarrow>
     e \<in> set (rawEdges st)
     \<or> (\<exists>line \<in> set rows. length (split COMMA line) \<ge> 2
          \<and> nodeIdToLine nm (trim (split COMMA line ! 0)) = Some (fst e)
          \<and> nodeIdToFile nm (trim (split COMMA line ! 0)) = Some a
          \<and> nodeIdToLine nm (trim (split COMMA line ! 1)) = Some (snd e)
          \<and> nodeIdToFile nm (trim (split COMMA line ! 1)) = Some a
          \<and> fst e \<noteq> snd e)"
proof (induction rows arbitrary: st)
  case Nil
  then show ?case by simp
next
  case (Cons line rows)
  from Cons.IH[of "edgeStep a nm st line"] Cons.prems
  consider "e \<in> set (rawEdges (edgeStep a nm st line))"
    | "\<exists>line \<in> set rows. length (split COMMA line) \<ge> 2
          \<and> nodeIdToLine nm (trim (split COMMA line ! 0)) = Some (fst e)
          \<and> nodeIdToFile nm (trim (split COMMA line ! 0)) = Some a
          \<and> nodeIdToLine nm (trim (split COMMA line ! 1)) = Some (snd e)
          \<and> nodeIdToFile nm (trim (split COMMA line ! 1)) = Some a
          \<and> fst e \<noteq> snd e"
    by auto
  then show ?case
  proof cases
    case 1
    with edgeStep_cases[of a nm st line] show ?thesis
      by (elim disjE exE conjE) auto
  next
    case 2
    then show ?thesis by auto
  qed
qed

lemma rawEdges_origin:
  assumes "p \<in> set (rawEdgesOf files a)"
  shows "\<exists>edgesContent. edgesCsv files = Some edgesContent
          \<and> (\<exists>line \<in> set (drop 1 (split NEWLINE (trim edgesContent))).
                length (split COMMA line) \<ge> 2
                \<and> nodeIdToLine (loadNodes a (nodesCsv files)) (trim (split COMMA line ! 0)) = Some (fst p)
                \<and> nodeIdToFile (loadNodes a (nodesCsv files)) (trim (split COMMA line ! 0)) = Some a
                \<and> nodeIdToLine (loadNodes a (nodesCsv files)) (trim (split COMMA line ! 1)) = Some (snd p)
                \<and> nodeIdToFile (loadNodes a (nodesCsv files)) (trim (split COMMA line ! 1)) = Some a
                \<and> fst p \<noteq> snd p)"
proof (cases "edgesCsv files")
  case None
  with assms show ?thesis by (simp add: rawEdgesOf_def loadEdges_def)
next
  case (Some edgesContent)
  with assms have "p \<in> set (rawEdges (foldl (edgeStep a (loadNodes a (nodesCsv files)))
       \<lparr>externalDependenciesByFile = [], rawEdges = [], seenEdgeKeys = {}\<rparr>
       (drop 1 (split NEWLINE (trim edgesContent)))))"
    by (simp add: rawEdgesOf_def loadEdges_def)
  from rawEdges_origin_foldl[OF this] Some show ?thesis by simp
qed

section \<open>The parent map and the resolution of real sources\<close>

lemma parentsOf_addParent:
  "parentsOf (addParent pm e) t = parentsOf pm t \<union> (if snd e = t then {fst e} else {})"
  by (auto simp: parentsOf_def addParent_def Let_def update_conv' set_set_add split: option.splits)

lemma parentsOf_foldl:
  "parentsOf (foldl addParent pm raw) t = parentsOf pm t \<union> {s. (s, t) \<in> set raw}"
  by (induction raw arbitrary: pm) (auto simp: parentsOf_addParent split: if_splits)

lemma parentsOf_buildParentMap: "parentsOf (buildParentMap raw) t = {s. (s, t) \<in> set raw}"
proof -
  have "parentsOf [] t = {}" by (simp add: parentsOf_def)
  then show ?thesis by (simp add: buildParentMap_def parentsOf_foldl)
qed

lemma resolve_terminal:
  "r \<in> set (fst (resolveRealSources nc pm line visited)) \<Longrightarrow> terminal nc pm r"
  "r \<in> set (fst (resolveParents nc pm ps visited)) \<Longrightarrow> terminal nc pm r"
proof (induction nc pm line visited and nc pm ps visited
    arbitrary: r and r rule: resolveRealSources_resolveParents.induct)
  case (1 nc pm line visited)
  let ?cats = "case nc line of None \<Rightarrow> [] | Some cs \<Rightarrow> cs"
  show ?case
  proof (cases "line \<in> visited")
    case True
    with "1.prems" show ?thesis by (simp add: resolveRealSources.simps[of nc pm line visited])
  next
    case nv: False
    show ?thesis
    proof (cases "shouldBypass ?cats")
      case False
      with nv "1.prems" have "r = line"
        by (simp add: resolveRealSources.simps[of nc pm line visited])
      with False show ?thesis by (simp add: terminal_def)
    next
      case byp: True
      show ?thesis
      proof (cases "map_of pm line")
        case None
        with nv byp "1.prems" have "r = line"
          by (simp add: resolveRealSources.simps[of nc pm line visited])
        with None show ?thesis by (simp add: terminal_def parentsOf_def)
      next
        case (Some ps)
        show ?thesis
        proof (cases "ps = []")
          case True
          with nv byp Some "1.prems" have "r = line"
            by (simp add: resolveRealSources.simps[of nc pm line visited])
          with Some True show ?thesis by (simp add: terminal_def parentsOf_def)
        next
          case False
          with nv byp Some "1.prems"
          have "r \<in> set (fst (resolveParents nc pm ps (insert line visited)))"
            by (simp add: resolveRealSources.simps[of nc pm line visited])
          with "1.IH"[OF nv refl refl _ Some False] byp show ?thesis by simp
        qed
      qed
    qed
  qed
next
  case (2 nc pm visited)
  then show ?case by simp
next
  case (3 nc pm parent rest visited)
  obtain r1 v1 where a: "resolveRealSources nc pm parent visited = (r1, v1)"
    by (cases "resolveRealSources nc pm parent visited")
  obtain r2 v2 where b: "resolveParents nc pm rest v1 = (r2, v2)"
    by (cases "resolveParents nc pm rest v1")
  from "3.prems" a b have "r \<in> set r1 \<or> r \<in> set r2" by auto
  then show ?case
    using "3.IH"(1)[of r] "3.IH"(2)[OF a[symmetric], of r] a b by auto
qed

lemma resolve_closed_empty:
  assumes S: "\<forall>l \<in> S. shouldBypass (case nc l of None \<Rightarrow> [] | Some cs \<Rightarrow> cs)
                 \<and> (\<exists>ps. map_of pm l = Some ps \<and> ps \<noteq> [] \<and> set ps \<subseteq> S)"
  shows "line \<in> S \<Longrightarrow> fst (resolveRealSources nc pm line visited) = []"
    and "set ps \<subseteq> S \<Longrightarrow> fst (resolveParents nc pm ps visited) = []"
  using S
proof (induction nc pm line visited and nc pm ps visited
    rule: resolveRealSources_resolveParents.induct)
  case (1 nc pm line visited)
  show ?case
  proof (cases "line \<in> visited")
    case True
    then show ?thesis by (simp add: resolveRealSources.simps)
  next
    case False
    from "1.prems" obtain ps where ps: "map_of pm line = Some ps" "ps \<noteq> []" "set ps \<subseteq> S"
      and byp: "shouldBypass (case nc line of None \<Rightarrow> [] | Some cs \<Rightarrow> cs)"
      by blast
    from "1.IH"[OF False refl refl _ ps(1) ps(2) ps(3) "1.prems"(2)] byp
    have "fst (resolveParents nc pm ps (insert line visited)) = []" by simp
    with False ps byp show ?thesis
      by (simp add: resolveRealSources.simps[of nc pm line visited])
  qed
next
  case (2 nc pm visited)
  then show ?case by simp
next
  case (3 nc pm parent rest visited)
  obtain r1 v1 where a: "resolveRealSources nc pm parent visited = (r1, v1)"
    by (cases "resolveRealSources nc pm parent visited")
  obtain r2 v2 where b: "resolveParents nc pm rest v1 = (r2, v2)"
    by (cases "resolveParents nc pm rest v1")
  from "3.prems" have p: "parent \<in> S" and r: "set rest \<subseteq> S" by auto
  from "3.IH"(1)[OF p "3.prems"(2)] a have "r1 = []" by simp
  moreover from "3.IH"(2)[OF a[symmetric] r "3.prems"(2)] b have "r2 = []" by simp
  ultimately show ?case using a b by simp
qed

lemma resolve_within:
  "r \<in> set (fst (resolveRealSources nc pm line visited)) \<Longrightarrow> r = line \<or> (\<exists>t. r \<in> parentsOf pm t)"
  "r \<in> set (fst (resolveParents nc pm ps visited)) \<Longrightarrow> r \<in> set ps \<or> (\<exists>t. r \<in> parentsOf pm t)"
proof (induction nc pm line visited and nc pm ps visited
    arbitrary: r and r rule: resolveRealSources_resolveParents.induct)
  case (1 nc pm line visited)
  let ?cats = "case nc line of None \<Rightarrow> [] | Some cs \<Rightarrow> cs"
  show ?case
  proof (cases "line \<notin> visited \<and> shouldBypass ?cats \<and> (\<exists>ps. map_of pm line = Some ps \<and> ps \<noteq> [])")
    case False
    with "1.prems" have "r = line"
      by (auto simp: resolveRealSources.simps[of nc pm line visited] Let_def
          split: if_splits option.splits)
    then show ?thesis ..
  next
    case True
    then obtain ps where nv: "line \<notin> visited" and byp: "shouldBypass ?cats"
      and ps: "map_of pm line = Some ps" "ps \<noteq> []"
      by blast
    with "1.prems" have "r \<in> set (fst (resolveParents nc pm ps (insert line visited)))"
      by (simp add: resolveRealSources.simps[of nc pm line visited])
    with "1.IH"[OF nv refl refl _ ps] byp
    have "r \<in> set ps \<or> (\<exists>t. r \<in> parentsOf pm t)" by simp
    moreover have "set ps = parentsOf pm line" using ps by (simp add: parentsOf_def)
    ultimately show ?thesis by blast
  qed
next
  case (2 nc pm visited)
  then show ?case by simp
next
  case (3 nc pm parent rest visited)
  obtain r1 v1 where a: "resolveRealSources nc pm parent visited = (r1, v1)"
    by (cases "resolveRealSources nc pm parent visited")
  obtain r2 v2 where b: "resolveParents nc pm rest v1 = (r2, v2)"
    by (cases "resolveParents nc pm rest v1")
  from "3.prems" a b have "r \<in> set r1 \<or> r \<in> set r2" by auto
  then show ?case
    using "3.IH"(1)[of r] "3.IH"(2)[OF a[symmetric], of r] a b by auto
qed

section \<open>The rebuilt edges\<close>

lemma emitEdge_cases:
  "emitEdge t st r = st
   \<or> (r \<noteq> t \<and> edgeKey r t \<notin> resolvedEdgeKeys st
        \<and> rs_edges (emitEdge t st r) = rs_edges st @ [(r, t)]
        \<and> resolvedEdgeKeys (emitEdge t st r) = insert (edgeKey r t) (resolvedEdgeKeys st)
        \<and> rs_nodes (emitEdge t st r) = set_add t (set_add r (rs_nodes st)))"
  by (simp add: emitEdge_def)

lemma rebInv_emit:
  assumes "rebInv P st" and "P r"
  shows "rebInv P (emitEdge t st r)"
proof -
  from emitEdge_cases[of t st r]
  consider "emitEdge t st r = st"
    | "r \<noteq> t" "edgeKey r t \<notin> resolvedEdgeKeys st"
      "rs_edges (emitEdge t st r) = rs_edges st @ [(r, t)]"
      "resolvedEdgeKeys (emitEdge t st r) = insert (edgeKey r t) (resolvedEdgeKeys st)"
      "rs_nodes (emitEdge t st r) = set_add t (set_add r (rs_nodes st))"
    by blast
  then show ?thesis
  proof cases
    case 1
    with assms show ?thesis by simp
  next
    case 2
    from assms(1) 2(2) have "(r, t) \<notin> set (rs_edges st)"
      by (force simp: rebInv_def)
    with assms 2 show ?thesis by (simp add: rebInv_def set_set_add)
  qed
qed

lemma rebInv_foldl_emit:
  "rebInv P st \<Longrightarrow> \<forall>r \<in> set rs. P r \<Longrightarrow> rebInv P (foldl (emitEdge t) st rs)"
  by (induction rs arbitrary: st) (simp_all add: rebInv_emit)

lemma rebInv_step:
  "rebInv (terminal nc pm) st \<Longrightarrow> rebInv (terminal nc pm) (rebuildStep nc pm st e)"
  unfolding rebuildStep_def Let_def
  by (rule rebInv_foldl_emit) (auto intro: resolve_terminal(1))

lemma rebInv_foldl_step:
  "rebInv (terminal nc pm) st \<Longrightarrow> rebInv (terminal nc pm) (foldl (rebuildStep nc pm) st raw)"
  by (induction raw arbitrary: st) (simp_all add: rebInv_step)

lemma set_foldl_endpoints:
  "set (foldl (\<lambda>ns edge. set_add (snd edge) (set_add (fst edge) ns)) ns raw)
     = set ns \<union> fst ` set raw \<union> snd ` set raw"
  by (induction raw arbitrary: ns) (auto simp: set_set_add)

lemma rebInv_rebuildEdges: "rebInv (terminal nc (buildParentMap raw)) (rebuildEdges nc raw)"
proof -
  let ?pm = "buildParentMap raw"
  let ?st = "foldl (rebuildStep nc ?pm) \<lparr>rs_nodes = [], rs_edges = [], resolvedEdgeKeys = {}\<rparr> raw"
  have "rebInv (terminal nc ?pm) \<lparr>rs_nodes = [], rs_edges = [], resolvedEdgeKeys = {}\<rparr>"
    by (simp add: rebInv_def)
  then have "rebInv (terminal nc ?pm) ?st" by (rule rebInv_foldl_step)
  then show ?thesis
    by (simp add: rebuildEdges_def Let_def rebInv_def set_foldl_endpoints)
qed

lemma emit_edges_origin:
  "e \<in> set (rs_edges (foldl (emitEdge t) st rs)) \<Longrightarrow>
     e \<in> set (rs_edges st) \<or> (fst e \<in> set rs \<and> snd e = t)"
proof (induction rs arbitrary: st)
  case Nil
  then show ?case by simp
next
  case (Cons r rs)
  from Cons.IH[of "emitEdge t st r"] Cons.prems
  have "e \<in> set (rs_edges (emitEdge t st r)) \<or> (fst e \<in> set rs \<and> snd e = t)" by simp
  then show ?case
    using emitEdge_cases[of t st r] by auto
qed

lemma rebuild_edges_origin:
  "e \<in> set (rs_edges (foldl (rebuildStep nc pm) st raw)) \<Longrightarrow>
     e \<in> set (rs_edges st)
     \<or> (\<exists>p \<in> set raw. snd e = snd p \<and> (fst e = fst p \<or> (\<exists>t. fst e \<in> parentsOf pm t)))"
proof (induction raw arbitrary: st)
  case Nil
  then show ?case by simp
next
  case (Cons p raw)
  from Cons.IH[of "rebuildStep nc pm st p"] Cons.prems
  consider "e \<in> set (rs_edges (rebuildStep nc pm st p))"
    | "\<exists>p \<in> set raw. snd e = snd p \<and> (fst e = fst p \<or> (\<exists>t. fst e \<in> parentsOf pm t))"
    by auto
  then show ?case
  proof cases
    case 1
    then have "e \<in> set (rs_edges st)
       \<or> (fst e \<in> set (fst (resolveRealSources nc pm (fst p) {})) \<and> snd e = snd p)"
      unfolding rebuildStep_def Let_def by (rule emit_edges_origin)
    then show ?thesis
      using resolve_within(1)[of "fst e" nc pm "fst p" "{}"] by auto
  next
    case 2
    then show ?thesis by auto
  qed
qed

lemma rebuildEdges_endpoints:
  assumes "e \<in> set (rs_edges (rebuildEdges nc raw))"
  shows "fst e \<in> fst ` set raw \<and> snd e \<in> snd ` set raw"
proof -
  from assms have "e \<in> set (rs_edges (foldl (rebuildStep nc (buildParentMap raw))
       \<lparr>rs_nodes = [], rs_edges = [], resolvedEdgeKeys = {}\<rparr> raw))"
    by (simp add: rebuildEdges_def Let_def)
  from rebuild_edges_origin[OF this]
  obtain p where p: "p \<in> set raw" "snd e = snd p"
      "fst e = fst p \<or> (\<exists>t. fst e \<in> parentsOf (buildParentMap raw) t)"
    by auto
  have "fst e \<in> fst ` set raw"
  proof (cases "fst e = fst p")
    case True
    with p(1) show ?thesis by simp
  next
    case False
    with p(3) obtain t where "fst e \<in> parentsOf (buildParentMap raw) t" by blast
    then have "(fst e, t) \<in> set raw" by (simp add: parentsOf_buildParentMap)
    then show ?thesis by (metis fst_conv imageI)
  qed
  moreover from p have "snd e \<in> snd ` set raw" by simp
  ultimately show ?thesis ..
qed

lemma edge_pairs_enumerate:
  "map ((\<lambda>x. (edge_source x, edge_target x))
        \<circ> (\<lambda>(i, e). \<lparr>edge_index = i, edge_source = fst e, edge_target = snd e\<rparr>))
     (enumerate n es) = es"
  by (induction es arbitrary: n) simp_all

lemma loadGraph_edge_pairs:
  "csvExists files \<Longrightarrow>
   map (\<lambda>x. (edge_source x, edge_target x)) (edges (loadGraphFromCSV files a))
     = rs_edges (rebuildEdges (nodeCategories (loadNodes a (nodesCsv files))) (rawEdgesOf files a))"
  by (simp add: loadGraphFromCSV_def Let_def rawEdgesOf_def edge_pairs_enumerate)

lemma loadGraph_no_csv: "\<not> csvExists files \<Longrightarrow> edges (loadGraphFromCSV files a) = []"
  by (simp add: loadGraphFromCSV_def)

lemma loadGraph_nodes:
  "csvExists files \<Longrightarrow>
   nodes (loadGraphFromCSV files a)
     = map (makeNode (loadNodes a (nodesCsv files)) (loadLineContents (linesCsv files))
              (externalDependenciesByFile (loadEdges a (loadNodes a (nodesCsv files)) (edgesCsv files))))
         (rs_nodes (rebuildEdges (nodeCategories (loadNodes a (nodesCsv files))) (rawEdgesOf files a)))"
  by (simp add: loadGraphFromCSV_def Let_def rawEdgesOf_def)

lemma makeNode_fields:
  "node_lineNumber (makeNode nm lc ext i) = i"
  "node_categories (makeNode nm lc ext i) = (case nodeCategories nm i of None \<Rightarrow> [Unknown] | Some cs \<Rightarrow> cs)"
  by (simp_all add: makeNode_def Let_def)

section \<open>The derived edge file\<close>

lemma translateEdgeStep_cases:
  "translateEdgeStep ntl st rawLine = st
   \<or> (\<exists>s t label. ntl (trim (split COMMA (trim rawLine) ! 0)) = Some s
          \<and> ntl (trim (split COMMA (trim rawLine) ! 1)) = Some t \<and> s \<noteq> t
          \<and> label = trim (split COMMA (trim rawLine) ! 2)
          \<and> labelledEdgeKey s t label \<notin> seenEdges st
          \<and> translatedEdges (translateEdgeStep ntl st rawLine) = translatedEdges st @ [labelledEdgeKey s t label]
          \<and> seenEdges (translateEdgeStep ntl st rawLine) = insert (labelledEdgeKey s t label) (seenEdges st))"
  unfolding translateEdgeStep_def Let_def
  by (auto split: option.splits)

lemma trInv_step:
  assumes "trInv st"
  shows "trInv (translateEdgeStep ntl st rawLine)"
proof -
  from translateEdgeStep_cases[of ntl st rawLine]
  consider "translateEdgeStep ntl st rawLine = st"
    | k where "k \<notin> seenEdges st"
      "translatedEdges (translateEdgeStep ntl st rawLine) = translatedEdges st @ [k]"
      "seenEdges (translateEdgeStep ntl st rawLine) = insert k (seenEdges st)"
    by blast
  then show ?thesis
  proof cases
    case 1
    with assms show ?thesis by simp
  next
    case 2
    from assms obtain h rest where hr: "translatedEdges st = h # rest"
      by (cases "translatedEdges st") (auto simp: trInv_def)
    with assms 2 show ?thesis by (auto simp: trInv_def)
  qed
qed

lemma trInv_foldl: "trInv st \<Longrightarrow> trInv (foldl (translateEdgeStep ntl) st rows)"
  by (induction rows arbitrary: st) (simp_all add: trInv_step)

lemma translatedRows_distinct:
  assumes "translatedRows k nodesContent edgesContent = Some rows"
  shows "distinct (drop 1 rows)"
proof -
  from assms obtain nc ec where "nodesContent = Some nc" "edgesContent = Some ec"
    by (auto simp: translatedRows_def split: option.splits)
  with assms obtain ntl hdr rest where
    rows: "rows = translatedEdges (foldl (translateEdgeStep ntl) \<lparr>translatedEdges = [hdr], seenEdges = {}\<rparr> rest)"
    by (auto simp: translatedRows_def Let_def split: if_splits)
  have "trInv \<lparr>translatedEdges = [hdr], seenEdges = {}\<rparr>" by (simp add: trInv_def)
  from trInv_foldl[OF this, of ntl rest] rows show ?thesis by (simp add: trInv_def)
qed

text \<open>
  What a row of the derived file stands for: a record of at least three fields whose two ids
  are in the id-to-line map, with different lines. The file of a node plays no part.
\<close>

lemma translated_added_foldl:
  "\<exists>added. translatedEdges (foldl (translateEdgeStep ntl) st rows) = translatedEdges st @ added
     \<and> (\<forall>row \<in> set added. \<exists>rawLine \<in> set rows. \<exists>s t.
           length (split COMMA (trim rawLine)) \<ge> 3
           \<and> ntl (trim (split COMMA (trim rawLine) ! 0)) = Some s
           \<and> ntl (trim (split COMMA (trim rawLine) ! 1)) = Some t \<and> s \<noteq> t
           \<and> row = labelledEdgeKey s t (trim (split COMMA (trim rawLine) ! 2)))"
proof (induction rows arbitrary: st)
  case Nil
  then show ?case by simp
next
  case (Cons rawLine rows)
  have step: "translatedEdges (translateEdgeStep ntl st rawLine) = translatedEdges st
     \<or> (\<exists>s t. length (split COMMA (trim rawLine)) \<ge> 3
           \<and> ntl (trim (split COMMA (trim rawLine) ! 0)) = Some s
           \<and> ntl (trim (split COMMA (trim rawLine) ! 1)) = Some t \<and> s \<noteq> t
           \<and> translatedEdges (translateEdgeStep ntl st rawLine)
               = translatedEdges st @ [labelledEdgeKey s t (trim (split COMMA (trim rawLine) ! 2))])"
    unfolding translateEdgeStep_def Let_def by (auto split: option.splits)
  from Cons.IH[of "translateEdgeStep ntl st rawLine"]
  obtain added where added:
    "translatedEdges (foldl (translateEdgeStep ntl) (translateEdgeStep ntl st rawLine) rows)
       = translatedEdges (translateEdgeStep ntl st rawLine) @ added"
    "\<forall>row \<in> set added. \<exists>rawLine \<in> set rows. \<exists>s t.
           length (split COMMA (trim rawLine)) \<ge> 3
           \<and> ntl (trim (split COMMA (trim rawLine) ! 0)) = Some s
           \<and> ntl (trim (split COMMA (trim rawLine) ! 1)) = Some t \<and> s \<noteq> t
           \<and> row = labelledEdgeKey s t (trim (split COMMA (trim rawLine) ! 2))"
    by blast
  from step show ?case
  proof
    assume "translatedEdges (translateEdgeStep ntl st rawLine) = translatedEdges st"
    with added show ?thesis by (intro exI[of _ added]) auto
  next
    assume "\<exists>s t. length (split COMMA (trim rawLine)) \<ge> 3
           \<and> ntl (trim (split COMMA (trim rawLine) ! 0)) = Some s
           \<and> ntl (trim (split COMMA (trim rawLine) ! 1)) = Some t \<and> s \<noteq> t
           \<and> translatedEdges (translateEdgeStep ntl st rawLine)
               = translatedEdges st @ [labelledEdgeKey s t (trim (split COMMA (trim rawLine) ! 2))]"
    then obtain s t where st: "length (split COMMA (trim rawLine)) \<ge> 3"
      "ntl (trim (split COMMA (trim rawLine) ! 0)) = Some s"
      "ntl (trim (split COMMA (trim rawLine) ! 1)) = Some t" "s \<noteq> t"
      "translatedEdges (translateEdgeStep ntl st rawLine)
               = translatedEdges st @ [labelledEdgeKey s t (trim (split COMMA (trim rawLine) ! 2))]"
      by blast
    with added show ?thesis
      by (intro exI[of _ "labelledEdgeKey s t (trim (split COMMA (trim rawLine) ! 2)) # added"]) auto
  qed
qed

lemma translatedRows_origin:
  assumes "translatedRows k (Some nc) (Some ec) = Some rows" and "row \<in> set (drop 1 rows)"
  shows "\<exists>rawLine \<in> set (drop 1 (split NEWLINE ec)). \<exists>s t.
           length (split COMMA (trim rawLine)) \<ge> 3
           \<and> foldl (translateNodeStep k) Map.empty (drop 1 (split NEWLINE nc))
                (trim (split COMMA (trim rawLine) ! 0)) = Some s
           \<and> foldl (translateNodeStep k) Map.empty (drop 1 (split NEWLINE nc))
                (trim (split COMMA (trim rawLine) ! 1)) = Some t
           \<and> s \<noteq> t
           \<and> row = labelledEdgeKey s t (trim (split COMMA (trim rawLine) ! 2))"
proof -
  let ?ntl = "foldl (translateNodeStep k) Map.empty (drop 1 (split NEWLINE nc))"
  let ?init = "\<lparr>translatedEdges = [hd (split NEWLINE ec)], seenEdges = {}\<rparr>"
  from assms(1) have rows: "rows = translatedEdges (foldl (translateEdgeStep ?ntl) ?init (drop 1 (split NEWLINE ec)))"
    by (auto simp: translatedRows_def Let_def split: if_splits)
  from translated_added_foldl[of ?ntl ?init "drop 1 (split NEWLINE ec)"] rows
  obtain added where "rows = hd (split NEWLINE ec) # added"
    and "\<forall>row \<in> set added. \<exists>rawLine \<in> set (drop 1 (split NEWLINE ec)). \<exists>s t.
           length (split COMMA (trim rawLine)) \<ge> 3
           \<and> ?ntl (trim (split COMMA (trim rawLine) ! 0)) = Some s
           \<and> ?ntl (trim (split COMMA (trim rawLine) ! 1)) = Some t \<and> s \<noteq> t
           \<and> row = labelledEdgeKey s t (trim (split COMMA (trim rawLine) ! 2))"
    by auto
  with assms(2) show ?thesis by simp
qed

text \<open>
  Conversely, every such record has its key among the rows: the key is appended unless it is
  in \<open>seenEdges\<close>, and then it was appended before.
\<close>

lemma written_inv_step:
  assumes "translatedEdges st \<noteq> []" and "seenEdges st \<subseteq> set (drop 1 (translatedEdges st))"
  shows "translatedEdges (translateEdgeStep ntl st rawLine) \<noteq> []
     \<and> seenEdges (translateEdgeStep ntl st rawLine)
          \<subseteq> set (drop 1 (translatedEdges (translateEdgeStep ntl st rawLine)))
     \<and> set (drop 1 (translatedEdges st))
          \<subseteq> set (drop 1 (translatedEdges (translateEdgeStep ntl st rawLine)))"
proof -
  from translateEdgeStep_cases[of ntl st rawLine]
  consider "translateEdgeStep ntl st rawLine = st"
    | k where "translatedEdges (translateEdgeStep ntl st rawLine) = translatedEdges st @ [k]"
      "seenEdges (translateEdgeStep ntl st rawLine) = insert k (seenEdges st)"
    by blast
  then show ?thesis
  proof cases
    case 1
    with assms show ?thesis by simp
  next
    case 2
    from assms obtain h rest where "translatedEdges st = h # rest"
      by (cases "translatedEdges st") auto
    with assms 2 show ?thesis by auto
  qed
qed

lemma written_inv_foldl:
  assumes "translatedEdges st \<noteq> []" and "seenEdges st \<subseteq> set (drop 1 (translatedEdges st))"
  shows "set (drop 1 (translatedEdges st))
          \<subseteq> set (drop 1 (translatedEdges (foldl (translateEdgeStep ntl) st rows)))"
  using assms
proof (induction rows arbitrary: st)
  case Nil
  then show ?case by simp
next
  case (Cons rawLine rows)
  from written_inv_step[OF Cons.prems, of ntl rawLine] Cons.IH[of "translateEdgeStep ntl st rawLine"]
  show ?case by auto
qed

lemma written_step:
  assumes "translatedEdges st \<noteq> []" and "seenEdges st \<subseteq> set (drop 1 (translatedEdges st))"
    and "length (split COMMA (trim rawLine)) \<ge> 3"
    and "ntl (trim (split COMMA (trim rawLine) ! 0)) = Some s"
    and "ntl (trim (split COMMA (trim rawLine) ! 1)) = Some t" and "s \<noteq> t"
  shows "labelledEdgeKey s t (trim (split COMMA (trim rawLine) ! 2))
           \<in> set (drop 1 (translatedEdges (translateEdgeStep ntl st rawLine)))"
proof -
  from assms(3) have ne: "trim rawLine \<noteq> []" by (cases "trim rawLine") auto
  from assms(1) obtain h rest where hr: "translatedEdges st = h # rest"
    by (cases "translatedEdges st") auto
  show ?thesis
  proof (cases "labelledEdgeKey s t (trim (split COMMA (trim rawLine) ! 2)) \<in> seenEdges st")
    case True
    with assms ne have "translateEdgeStep ntl st rawLine = st"
      by (simp add: translateEdgeStep_def Let_def)
    with True assms(2) show ?thesis by auto
  next
    case False
    with assms ne have "translatedEdges (translateEdgeStep ntl st rawLine)
        = translatedEdges st @ [labelledEdgeKey s t (trim (split COMMA (trim rawLine) ! 2))]"
      by (simp add: translateEdgeStep_def Let_def)
    with hr show ?thesis by simp
  qed
qed

lemma written_foldl:
  assumes "translatedEdges st \<noteq> []" and "seenEdges st \<subseteq> set (drop 1 (translatedEdges st))"
    and "rawLine \<in> set rows"
    and "length (split COMMA (trim rawLine)) \<ge> 3"
    and "ntl (trim (split COMMA (trim rawLine) ! 0)) = Some s"
    and "ntl (trim (split COMMA (trim rawLine) ! 1)) = Some t" and "s \<noteq> t"
  shows "labelledEdgeKey s t (trim (split COMMA (trim rawLine) ! 2))
           \<in> set (drop 1 (translatedEdges (foldl (translateEdgeStep ntl) st rows)))"
  using assms(1,2,3)
proof (induction rows arbitrary: st)
  case Nil
  then show ?case by simp
next
  case (Cons r rows)
  note inv = written_inv_step[OF Cons.prems(1,2), of ntl r]
  show ?case
  proof (cases "rawLine = r")
    case True
    from written_step[OF Cons.prems(1,2) assms(4,5,6,7)] True
    have "labelledEdgeKey s t (trim (split COMMA (trim rawLine) ! 2))
           \<in> set (drop 1 (translatedEdges (translateEdgeStep ntl st r)))" by simp
    moreover from inv
    have "set (drop 1 (translatedEdges (translateEdgeStep ntl st r)))
          \<subseteq> set (drop 1 (translatedEdges (foldl (translateEdgeStep ntl) (translateEdgeStep ntl st r) rows)))"
      by (intro written_inv_foldl) simp_all
    ultimately show ?thesis by auto
  next
    case False
    with Cons.prems(3) have "rawLine \<in> set rows" by simp
    with inv Cons.IH[of "translateEdgeStep ntl st r"] show ?thesis by simp
  qed
qed

lemma translatedRows_written:
  assumes "translatedRows k (Some nc) (Some ec) = Some rows"
    and "rawLine \<in> set (drop 1 (split NEWLINE ec))"
    and "length (split COMMA (trim rawLine)) \<ge> 3"
    and "foldl (translateNodeStep k) Map.empty (drop 1 (split NEWLINE nc))
           (trim (split COMMA (trim rawLine) ! 0)) = Some s"
    and "foldl (translateNodeStep k) Map.empty (drop 1 (split NEWLINE nc))
           (trim (split COMMA (trim rawLine) ! 1)) = Some t"
    and "s \<noteq> t"
  shows "labelledEdgeKey s t (trim (split COMMA (trim rawLine) ! 2)) \<in> set (drop 1 rows)"
proof -
  let ?ntl = "foldl (translateNodeStep k) Map.empty (drop 1 (split NEWLINE nc))"
  let ?init = "\<lparr>translatedEdges = [hd (split NEWLINE ec)], seenEdges = {}\<rparr>"
  from assms(1) have rows: "rows = translatedEdges (foldl (translateEdgeStep ?ntl) ?init (drop 1 (split NEWLINE ec)))"
    by (auto simp: translatedRows_def Let_def split: if_splits)
  have "labelledEdgeKey s t (trim (split COMMA (trim rawLine) ! 2))
           \<in> set (drop 1 (translatedEdges (foldl (translateEdgeStep ?ntl) ?init (drop 1 (split NEWLINE ec)))))"
    by (rule written_foldl[OF _ _ assms(2,3,4,5,6)]) simp_all
  with rows show ?thesis by simp
qed

section \<open>The graph read from the derived edge file\<close>

text \<open>
  The older \<^verbatim>\<open>loadGraphFromCSV\<close> takes an edge from every line after the header whose first
  two fields are numbers, and from no other.
\<close>

lemma loadStep_client_edges:
  "set (ls_edges (loadStep_client st line)) = set (ls_edges st)
      \<union> {(s, t). length (split COMMA line) \<ge> 2
                 \<and> parseInt_noRadix (trim (split COMMA line ! 0)) = Some s
                 \<and> parseInt_noRadix (trim (split COMMA line ! 1)) = Some t}"
  by (auto simp: loadStep_client_def Let_def split: option.splits)

lemma loadStep_client_foldl:
  "set (ls_edges (foldl loadStep_client st lines)) = set (ls_edges st)
      \<union> {(s, t). \<exists>line \<in> set lines. length (split COMMA line) \<ge> 2
                 \<and> parseInt_noRadix (trim (split COMMA line ! 0)) = Some s
                 \<and> parseInt_noRadix (trim (split COMMA line ! 1)) = Some t}"
proof (induction lines arbitrary: st)
  case Nil
  then show ?case by simp
next
  case (Cons line lines)
  show ?case
    unfolding foldl_Cons Cons.IH loadStep_client_edges by auto
qed

lemma client_edge_pairs_enumerate:
  "map ((\<lambda>x. (source_client x, target_client x))
        \<circ> (\<lambda>(i, e). \<lparr>index_client = i, source_client = fst e, target_client = snd e\<rparr>))
     (enumerate n es) = es"
  by (induction es arbitrary: n) simp_all

lemma client_graph_edges:
  "(\<lambda>e. (source_client e, target_client e))
      ` set (edges_client (loadGraphFromCSV_client (Some csvContent) linesFile))
   = {(s, t). \<exists>line \<in> set (drop (if includes_js (split NEWLINE (trim csvContent) ! 0) (js ''source'')
                                     then 1 else 0)
                               (split NEWLINE (trim csvContent))).
                 length (split COMMA line) \<ge> 2
                 \<and> parseInt_noRadix (trim (split COMMA line ! 0)) = Some s
                 \<and> parseInt_noRadix (trim (split COMMA line ! 1)) = Some t}"
proof -
  let ?lines = "drop (if includes_js (split NEWLINE (trim csvContent) ! 0) (js ''source'') then 1 else 0)
                  (split NEWLINE (trim csvContent))"
  have "map (\<lambda>e. (source_client e, target_client e))
          (edges_client (loadGraphFromCSV_client (Some csvContent) linesFile))
        = ls_edges (foldl loadStep_client \<lparr>ls_nodes = [], ls_edges = []\<rparr> ?lines)"
    by (simp add: loadGraphFromCSV_client_def Let_def client_edge_pairs_enumerate)
  then have "(\<lambda>e. (source_client e, target_client e))
      ` set (edges_client (loadGraphFromCSV_client (Some csvContent) linesFile))
      = set (ls_edges (foldl loadStep_client \<lparr>ls_nodes = [], ls_edges = []\<rparr> ?lines))"
    by (metis set_map)
  then show ?thesis by (simp only: loadStep_client_foldl) simp
qed

section \<open>The example inputs, evaluated\<close>

lemmas string_eval = trim_def isWhiteSpace_def NEWLINE_def HASH_def COMMA_def DQUOTE_def isDigit_def Let_def

lemma ex_node_rows: "drop 1 (split NEWLINE (trim example_nodesCsv)) =
  [js ''n1#Assertion#Explicit#x#y#z#a.vpr @ line 5'',
         js ''n2#Assumption#Implicit#x#y#z#a.vpr @ line 2'',
         js ''n7#Assertion#Implicit#x#y#z#a.vpr @ line 7'']"
  by (simp add: example_nodesCsv_def string_eval)

lemma ex_nodes:
  "loadNodes example_fileName (Some example_nodesCsv) = example_nodeMaps"
  using ex_node_rows
  by (simp add: example_fileName_def loadNodes_def nodeStep_def parseInt_def
      getNodeCategories_def example_nodeMaps_def string_eval matchPosition_def
      matchPositionTail_def isLineTerminator_def LPAREN_def RPAREN_def AT_def)

lemma ex_edge_rows: "drop 1 (split NEWLINE (trim example_edgesCsv)) =
  [js ''n2,n1,dep'', js ''n1,n7,dep'']"
  by (simp add: example_edgesCsv_def string_eval)

lemma ex_keys: "edgeKey 5 7 \<noteq> edgeKey 2 5" "edgeKey 2 7 \<noteq> edgeKey 2 5"
  by (simp_all add: edgeKey_def show_nat.simps)

lemma ex_loadEdges:
  "loadEdges example_fileName example_nodeMaps (Some example_edgesCsv)
     = \<lparr>externalDependenciesByFile = [], rawEdges = [(2, 5), (5, 7)],
        seenEdgeKeys = {edgeKey 5 7, edgeKey 2 5}\<rparr>"
  using ex_edge_rows
  by (simp add: example_fileName_def loadEdges_def edgeStep_def example_nodeMaps_def string_eval ex_keys)

lemma example_raw: "rawEdgesOf example_files example_fileName = [(2, 5), (5, 7)]"
  by (simp add: rawEdgesOf_def example_files_def ex_nodes ex_loadEdges)

lemma example_rebuild:
  "rebuildEdges (nodeCategories example_nodeMaps) [(2, 5), (5, 7)]
     = \<lparr>rs_nodes = [2, 5, 7], rs_edges = [(2, 5), (2, 7)], resolvedEdgeKeys = {edgeKey 2 7, edgeKey 2 5}\<rparr>"
  by (simp add: rebuildEdges_def buildParentMap_def addParent_def set_add_def rebuildStep_def
      resolveRealSources.simps shouldBypass_def emitEdge_def ex_keys Let_def example_nodeMaps_def)

lemma example_graph:
  "loadGraphFromCSV example_files example_fileName =
     \<lparr>nodes = [\<lparr>node_lineNumber = 2, node_categories = [ImplicitAssumption], node_content = [],
                 externalDependencyCount = 0, externalDependencies = None\<rparr>,
               \<lparr>node_lineNumber = 5, node_categories = [ExplicitAssertion], node_content = [],
                 externalDependencyCount = 0, externalDependencies = None\<rparr>,
               \<lparr>node_lineNumber = 7, node_categories = [ImplicitAssertion], node_content = [],
                 externalDependencyCount = 0, externalDependencies = None\<rparr>],
      edges = [\<lparr>edge_index = 0, edge_source = 2, edge_target = 5\<rparr>,
               \<lparr>edge_index = 1, edge_source = 2, edge_target = 7\<rparr>]\<rparr>"
proof -
  have lc: "loadLineContents None = Map.empty"
    by (simp add: loadLineContents_def)
  have "loadGraphFromCSV example_files example_fileName =
     \<lparr>nodes = map (makeNode example_nodeMaps Map.empty []) [2, 5, 7],
      edges = map (\<lambda>(i, e). \<lparr>edge_index = i, edge_source = fst e, edge_target = snd e\<rparr>)
                (enumerate 0 [(2, 5), (2, 7)])\<rparr>"
    by (simp add: loadGraphFromCSV_def Let_def example_files_def ex_nodes ex_loadEdges lc
        example_rebuild)
  then show ?thesis
    by (simp add: makeNode_def example_nodeMaps_def)
qed

lemma dup_edge_rows:
  "drop 1 (split NEWLINE (trim dup_edgesCsv)) = [js ''n2,n1,a'', js ''n2,n1,b'']"
  by (simp add: dup_edgesCsv_def string_eval)

lemma dup_loadEdges:
  "rawEdges (loadEdges example_fileName example_nodeMaps (Some dup_edgesCsv)) = [(2, 5)]"
  using dup_edge_rows
  by (simp add: example_fileName_def loadEdges_def edgeStep_def example_nodeMaps_def string_eval)

lemma dup_raw: "rawEdgesOf dup_files example_fileName = [(2, 5)]"
  by (simp add: rawEdgesOf_def dup_files_def ex_nodes dup_loadEdges)

lemma dup_nodeToLine:
  "foldl (translateNodeStep 6) Map.empty (drop (Suc 0) (split NEWLINE example_nodesCsv))
     = [js ''n1'' \<mapsto> 5, js ''n2'' \<mapsto> 2, js ''n7'' \<mapsto> 7]"
  by (simp add: example_nodesCsv_def translateNodeStep_def parseInt_def string_eval)

lemma dup_rows:
  "translatedRows 6 (Some example_nodesCsv) (Some dup_edgesCsv)
     = Some [js ''source,target,label'', js ''2,5,a'', js ''2,5,b'']"
proof -
  have ne: "example_nodesCsv \<noteq> []" "dup_edgesCsv \<noteq> []"
    by (simp_all add: example_nodesCsv_def dup_edgesCsv_def)
  have rows: "split NEWLINE dup_edgesCsv = [js ''source,target,label'', js ''n2,n1,a'', js ''n2,n1,b'']"
    by (simp add: dup_edgesCsv_def string_eval)
  show ?thesis
    unfolding translatedRows_def
    by (simp add: ne dup_nodeToLine rows Let_def translateEdgeStep_def labelledEdgeKey_def
        show_nat.simps trim_def isWhiteSpace_def COMMA_def)
qed

lemma cycle_parentMap: "buildParentMap cycle_rawEdges = [(4, [3]), (3, [4])]"
  by (simp add: buildParentMap_def cycle_rawEdges_def addParent_def set_add_def)

lemma cross_node_rows: "drop 1 (split NEWLINE (trim cross_nodesCsv)) =
  [js ''n1#Assertion#Explicit#x#y#z#a.vpr @ line 5'',
   js ''n2#Assumption#Implicit#x#y#z#b.vpr @ line 2'']"
  by (simp add: cross_nodesCsv_def string_eval)

lemma cross_nodes:
  "loadNodes example_fileName (Some cross_nodesCsv) = cross_nodeMaps"
  using cross_node_rows
  by (simp add: example_fileName_def loadNodes_def nodeStep_def parseInt_def
      getNodeCategories_def cross_nodeMaps_def string_eval matchPosition_def
      matchPositionTail_def isLineTerminator_def LPAREN_def RPAREN_def AT_def)

lemma cross_edge_rows: "drop 1 (split NEWLINE (trim cross_edgesCsv)) = [js ''n2,n1,dep'']"
  by (simp add: cross_edgesCsv_def string_eval)

lemma cross_loadEdges:
  "rawEdges (loadEdges example_fileName cross_nodeMaps (Some cross_edgesCsv)) = []"
  using cross_edge_rows
  by (simp add: example_fileName_def loadEdges_def edgeStep_def cross_nodeMaps_def string_eval)

lemma cross_raw: "rawEdgesOf cross_files example_fileName = []"
  by (simp add: rawEdgesOf_def cross_files_def cross_nodes cross_loadEdges)

lemma cross_graph_edges: "edges (loadGraphFromCSV cross_files example_fileName) = []"
proof -
  have "csvExists cross_files" by (simp add: cross_files_def)
  from loadGraph_edge_pairs[OF this, of example_fileName]
  show ?thesis
    by (simp add: cross_raw rebuildEdges_def buildParentMap_def)
qed

lemma cross_nodeToLine:
  "foldl (translateNodeStep 6) Map.empty (drop (Suc 0) (split NEWLINE cross_nodesCsv))
     = [js ''n1'' \<mapsto> 5, js ''n2'' \<mapsto> 2]"
  by (simp add: cross_nodesCsv_def translateNodeStep_def parseInt_def string_eval)

lemma cross_nodeToLine_client:
  "foldl (translateNodeStep 5) Map.empty (drop (Suc 0) (split NEWLINE cross_nodesCsv_client))
     = [js ''n1'' \<mapsto> 5, js ''n2'' \<mapsto> 2]"
  by (simp add: cross_nodesCsv_client_def translateNodeStep_def parseInt_def string_eval)

lemma cross_rows:
  "translatedRows 6 (Some cross_nodesCsv) (Some cross_edgesCsv)
     = Some [js ''source,target,label'', js ''2,5,dep'']"
proof -
  have ne: "cross_nodesCsv \<noteq> []" "cross_edgesCsv \<noteq> []"
    by (simp_all add: cross_nodesCsv_def cross_edgesCsv_def)
  have rows: "split NEWLINE cross_edgesCsv = [js ''source,target,label'', js ''n2,n1,dep'']"
    by (simp add: cross_edgesCsv_def string_eval)
  show ?thesis
    unfolding translatedRows_def
    by (simp add: ne cross_nodeToLine rows Let_def translateEdgeStep_def labelledEdgeKey_def
        show_nat.simps trim_def isWhiteSpace_def COMMA_def)
qed

lemma cross_rows_client:
  "translatedRows 5 (Some cross_nodesCsv_client) (Some cross_edgesCsv)
     = Some [js ''source,target,label'', js ''2,5,dep'']"
proof -
  have ne: "cross_nodesCsv_client \<noteq> []" "cross_edgesCsv \<noteq> []"
    by (simp_all add: cross_nodesCsv_client_def cross_edgesCsv_def)
  have rows: "split NEWLINE cross_edgesCsv = [js ''source,target,label'', js ''n2,n1,dep'']"
    by (simp add: cross_edgesCsv_def string_eval)
  show ?thesis
    unfolding translatedRows_def
    by (simp add: ne cross_nodeToLine_client rows Let_def translateEdgeStep_def labelledEdgeKey_def
        show_nat.simps trim_def isWhiteSpace_def COMMA_def)
qed

lemma cross_translated_lines:
  "split NEWLINE (trim (join NEWLINE [js ''source,target,label'', js ''2,5,dep'']))
     = [js ''source,target,label'', js ''2,5,dep'']"
  by (simp add: string_eval)

lemma cross_client_edges:
  "edges_client (loadGraphFromCSV_client
      (translateEdgesToLineNumbers 5 (Some cross_nodesCsv_client) (Some cross_edgesCsv)) None)
     = [\<lparr>index_client = 0, source_client = 2, target_client = 5\<rparr>]"
  unfolding translateEdgesToLineNumbers_def cross_rows_client
  using cross_translated_lines
  by (simp add: loadGraphFromCSV_client_def loadStep_client_def parseInt_noRadix_def
      isHexDigit_def digitValue_def Let_def trim_def isWhiteSpace_def isDigit_def COMMA_def)

section \<open>The claims about the graph\<close>

text \<open>
  Claim C1. For every edge of the graph that \<^verbatim>\<open>loadGraphFromCSV\<close> returns, the node of the
  edge's source line is in the graph, and it does not carry \<open>ExplicitAssertion\<close> or no raw
  intra-file edge ends at it: an explicit assertion that still has parents is never the
  source of an edge.
\<close>

theorem bypass_correctness:
  "\<forall>e \<in> set (edges (loadGraphFromCSV files a)).
     \<exists>n \<in> set (nodes (loadGraphFromCSV files a)).
        node_lineNumber n = edge_source e
        \<and> (ExplicitAssertion \<notin> set (node_categories n)
            \<or> (\<forall>p \<in> set (rawEdgesOf files a). snd p \<noteq> edge_source e))"
proof (cases "csvExists files")
  case False
  then show ?thesis by (simp add: loadGraph_no_csv)
next
  case True
  let ?nm = "loadNodes a (nodesCsv files)"
  let ?raw = "rawEdgesOf files a"
  let ?st = "rebuildEdges (nodeCategories ?nm) ?raw"
  have inv: "rebInv (terminal (nodeCategories ?nm) (buildParentMap ?raw)) ?st"
    by (rule rebInv_rebuildEdges)
  show ?thesis
  proof
    fix e assume "e \<in> set (edges (loadGraphFromCSV files a))"
    then have "(edge_source e, edge_target e) \<in> set (map (\<lambda>x. (edge_source x, edge_target x)) (edges (loadGraphFromCSV files a)))"
      by force
    with True have mem: "(edge_source e, edge_target e) \<in> set (rs_edges ?st)"
      by (simp only: loadGraph_edge_pairs)
    with inv have t: "terminal (nodeCategories ?nm) (buildParentMap ?raw) (edge_source e)"
      and n: "edge_source e \<in> set (rs_nodes ?st)"
      by (force simp: rebInv_def)+
    let ?n = "makeNode ?nm (loadLineContents (linesCsv files))
                (externalDependenciesByFile (loadEdges a ?nm (edgesCsv files))) (edge_source e)"
    from n True have "?n \<in> set (nodes (loadGraphFromCSV files a))"
      by (simp add: loadGraph_nodes)
    moreover have "node_lineNumber ?n = edge_source e" by (simp add: makeNode_fields)
    moreover have "ExplicitAssertion \<notin> set (node_categories ?n)
            \<or> (\<forall>p \<in> set ?raw. snd p \<noteq> edge_source e)"
    proof (cases "shouldBypass (case nodeCategories ?nm (edge_source e) of None \<Rightarrow> [] | Some cs \<Rightarrow> cs)")
      case False
      then have "ExplicitAssertion \<notin> set (node_categories ?n)"
        by (auto simp: makeNode_fields shouldBypass_def split: option.splits)
      then show ?thesis ..
    next
      case True
      with t have "parentsOf (buildParentMap ?raw) (edge_source e) = {}"
        by (simp add: terminal_def)
      then have "\<forall>p \<in> set ?raw. snd p \<noteq> edge_source e"
        by (auto simp: parentsOf_buildParentMap)
      then show ?thesis ..
    qed
    ultimately show "\<exists>n \<in> set (nodes (loadGraphFromCSV files a)).
        node_lineNumber n = edge_source e
        \<and> (ExplicitAssertion \<notin> set (node_categories n)
            \<or> (\<forall>p \<in> set (rawEdgesOf files a). snd p \<noteq> edge_source e))"
      by blast
  qed
qed

text \<open>
  In the example the edge from line 5 to line 7 is rewritten to start at line 2, which is an
  implicit assumption.
\<close>

theorem bypass_correctness_witness:
  "\<lparr>edge_index = 1, edge_source = 2, edge_target = 7\<rparr>
      \<in> set (edges (loadGraphFromCSV example_files example_fileName))
   \<and> (\<exists>n \<in> set (nodes (loadGraphFromCSV example_files example_fileName)).
         node_lineNumber n = 2
         \<and> (ExplicitAssertion \<notin> set (node_categories n)
             \<or> (\<forall>p \<in> set (rawEdgesOf example_files example_fileName).
                   snd p \<noteq> 2)))"
proof -
  have m: "\<lparr>edge_index = 1, edge_source = 2, edge_target = 7\<rparr>
      \<in> set (edges (loadGraphFromCSV example_files example_fileName))"
    by (simp add: example_graph)
  from bspec[OF bypass_correctness m] m show ?thesis by simp
qed

text \<open>
  Claim C2, as amended. The resolution of real sources always returns (the recursion is proved
  to end, by the set of visited lines), but on a cycle it does not give the line on the cycle
  back as its own source. When the source of an edge lies in a set of lines that all carry
  \<open>ExplicitAssertion\<close>, all have a parent and have all their parents in the set, as the lines
  of a cycle of explicit assertions do, the resolution yields no source at all, and the raw
  edge adds no edge to the graph.
\<close>

theorem cycle_yields_no_source:
  assumes S: "\<forall>l \<in> S. ExplicitAssertion \<in> set (case nc l of None \<Rightarrow> [] | Some cs \<Rightarrow> cs)
                 \<and> (\<exists>s. (s, l) \<in> set raw) \<and> (\<forall>s. (s, l) \<in> set raw \<longrightarrow> s \<in> S)"
    and line: "line \<in> S"
  shows "fst (resolveRealSources nc (buildParentMap raw) line {}) = []
         \<and> rebuildStep nc (buildParentMap raw) st (line, t) = st"
proof -
  have "\<forall>l \<in> S. shouldBypass (case nc l of None \<Rightarrow> [] | Some cs \<Rightarrow> cs)
                 \<and> (\<exists>ps. map_of (buildParentMap raw) l = Some ps \<and> ps \<noteq> [] \<and> set ps \<subseteq> S)"
  proof
    fix l assume l: "l \<in> S"
    with S have ea: "shouldBypass (case nc l of None \<Rightarrow> [] | Some cs \<Rightarrow> cs)"
      by (simp add: shouldBypass_def)
    from S l obtain s where s: "(s, l) \<in> set raw" by blast
    have po: "parentsOf (buildParentMap raw) l = {s. (s, l) \<in> set raw}"
      by (rule parentsOf_buildParentMap)
    with s obtain ps where ps: "map_of (buildParentMap raw) l = Some ps" "set ps = {s. (s, l) \<in> set raw}"
      by (cases "map_of (buildParentMap raw) l") (auto simp: parentsOf_def)
    with s have "ps \<noteq> []" by auto
    moreover from ps S l have "set ps \<subseteq> S" by auto
    ultimately show "shouldBypass (case nc l of None \<Rightarrow> [] | Some cs \<Rightarrow> cs)
                 \<and> (\<exists>ps. map_of (buildParentMap raw) l = Some ps \<and> ps \<noteq> [] \<and> set ps \<subseteq> S)"
      using ea ps(1) by blast
  qed
  from resolve_closed_empty(1)[OF this line, of "{}"]
  have e: "fst (resolveRealSources nc (buildParentMap raw) line {}) = []" .
  then show ?thesis
    by (simp add: rebuildStep_def)
qed

text \<open>The two explicit assertions on lines 3 and 4 that justify each other.\<close>

theorem cycle_yields_no_source_witness:
  "3 \<in> {3, 4 :: nat}
   \<and> fst (resolveRealSources cycle_categories (buildParentMap cycle_rawEdges) 3 {}) = []
   \<and> rebuildStep cycle_categories (buildParentMap cycle_rawEdges)
        \<lparr>rs_nodes = [], rs_edges = [], resolvedEdgeKeys = {}\<rparr> (3, 4)
      = \<lparr>rs_nodes = [], rs_edges = [], resolvedEdgeKeys = {}\<rparr>"
proof -
  have S: "\<forall>l \<in> {3, 4 :: nat}. ExplicitAssertion \<in> set (case cycle_categories l of None \<Rightarrow> [] | Some cs \<Rightarrow> cs)
                 \<and> (\<exists>s. (s, l) \<in> set cycle_rawEdges) \<and> (\<forall>s. (s, l) \<in> set cycle_rawEdges \<longrightarrow> s \<in> {3, 4})"
    by (simp add: cycle_categories_def cycle_rawEdges_def)
  have line: "3 \<in> {3, 4 :: nat}" by simp
  from cycle_yields_no_source[OF S line,
      where st = "\<lparr>rs_nodes = [], rs_edges = [], resolvedEdgeKeys = {}\<rparr>" and t = 4]
  show ?thesis using line by simp
qed

text \<open>
  Claim C2 as stated fails: on the cycle of lines 3 and 4 the resolution from line 3 visits both
  lines and returns no real source, not line 3, and the rebuilt graph has no edge.
\<close>

theorem cycle_counterexample:
  "resolveRealSources cycle_categories (buildParentMap cycle_rawEdges) 3 {} = ([], {3, 4})
   \<and> rs_edges (rebuildEdges cycle_categories cycle_rawEdges) = []"
proof -
  have r: "resolveRealSources cycle_categories (buildParentMap cycle_rawEdges) 3 {} = ([], {3, 4})"
    by (simp add: cycle_parentMap resolveRealSources.simps cycle_categories_def shouldBypass_def
        insert_commute)
  have r': "resolveRealSources cycle_categories (buildParentMap cycle_rawEdges) 4 {} = ([], {3, 4})"
    by (simp add: cycle_parentMap resolveRealSources.simps cycle_categories_def shouldBypass_def
        insert_commute)
  have unroll: "foldl f init cycle_rawEdges = f (f init (3, 4)) (4, 3)"
    for f :: "rebuildState \<Rightarrow> nat \<times> nat \<Rightarrow> rebuildState" and init
    by (simp add: cycle_rawEdges_def)
  show ?thesis
    by (simp add: r r' rebuildEdges_def Let_def unroll rebuildStep_def)
qed

text \<open>
  Claim C3, as amended. The edges kept in memory by \<^verbatim>\<open>loadGraphFromCSV\<close> are deduplicated by
  the pair of source line and target line alone: the label is not read, and no pair appears
  twice. The rows of the derived edge file are deduplicated by source line, target line and
  label together: no row after the header appears twice, and two records between the same two
  lines with different labels are both written.
\<close>

theorem dedup_keys:
  "distinct (rawEdgesOf files a)
   \<and> (\<forall>rows. translatedRows k nodesContent edgesContent = Some rows \<longrightarrow> distinct (drop 1 rows))"
proof
  show "distinct (rawEdgesOf files a)"
    using rawInv_loadEdges[of a "loadNodes a (nodesCsv files)" "edgesCsv files"]
    by (simp add: rawInv_def rawEdgesOf_def)
  show "\<forall>rows. translatedRows k nodesContent edgesContent = Some rows \<longrightarrow> distinct (drop 1 rows)"
    by (blast intro: translatedRows_distinct)
qed

text \<open>
  The two records from line 2 to line 5 with labels \<^verbatim>\<open>a\<close> and \<^verbatim>\<open>b\<close> give one edge in
  memory and two different rows in the derived file.
\<close>

theorem dedup_keys_witness:
  "rawEdgesOf dup_files example_fileName = [(2, 5)]
   \<and> distinct (rawEdgesOf dup_files example_fileName)
   \<and> translatedRows 6 (Some example_nodesCsv) (Some dup_edgesCsv)
        = Some [js ''source,target,label'', js ''2,5,a'', js ''2,5,b'']
   \<and> distinct (drop 1 [js ''source,target,label'', js ''2,5,a'', js ''2,5,b''])"
  using dedup_keys[where files = dup_files and a = example_fileName
      and k = 6 and nodesContent = "Some example_nodesCsv" and edgesContent = "Some dup_edgesCsv"] dup_raw dup_rows
  by simp

text \<open>
  Claim C3 as stated fails for the derived edge file: the two records from line 2 to line 5
  are both in it, since their labels differ.
\<close>

theorem dedup_keys_counterexample:
  "translatedRows 6 (Some example_nodesCsv) (Some dup_edgesCsv)
     = Some [js ''source,target,label'', labelledEdgeKey 2 5 (js ''a''), labelledEdgeKey 2 5 (js ''b'')]
   \<and> labelledEdgeKey 2 5 (js ''a'') \<noteq> labelledEdgeKey 2 5 (js ''b'')"
  using dup_rows by (simp add: labelledEdgeKey_def show_nat.simps COMMA_def)

text \<open>
  Claim C4, by version. In \<^verbatim>\<open>src/unnamed/part_001\<close>, where \<^verbatim>\<open>loadGraphFromCSV\<close> reads
  \<^verbatim>\<open>edges.csv\<close> itself: every raw edge of the intra-file graph comes from a row (after the
  header) with at least two fields, whose two node ids are in the id-to-line map and in the
  id-to-file map with the analyzed file as their file, and whose two lines differ; and every
  edge of the returned graph starts at the source line of a raw edge and ends at the target
  line of one, so no line that is only known from another file is an endpoint.
  In every version, \<^verbatim>\<open>translateEdgesToLineNumbers\<close> writes a row to the derived edge file
  exactly for the records of at least three fields whose two ids are in its id-to-line map,
  with different lines: the file of a node plays no part. In
  \<^verbatim>\<open>client/src/DependencyAnalysis.ts\<close>, where \<^verbatim>\<open>loadGraphFromCSV\<close> reads the derived file,
  the edges of the graph are exactly the lines after the header whose first two fields are
  numbers.
\<close>

theorem kept_edges_by_version:
  "(\<forall>p \<in> set (rawEdgesOf files a).
      \<exists>edgesContent. edgesCsv files = Some edgesContent
          \<and> (\<exists>line \<in> set (drop 1 (split NEWLINE (trim edgesContent))).
                length (split COMMA line) \<ge> 2
                \<and> nodeIdToLine (loadNodes a (nodesCsv files)) (trim (split COMMA line ! 0)) = Some (fst p)
                \<and> nodeIdToFile (loadNodes a (nodesCsv files)) (trim (split COMMA line ! 0)) = Some a
                \<and> nodeIdToLine (loadNodes a (nodesCsv files)) (trim (split COMMA line ! 1)) = Some (snd p)
                \<and> nodeIdToFile (loadNodes a (nodesCsv files)) (trim (split COMMA line ! 1)) = Some a
                \<and> fst p \<noteq> snd p))
   \<and> (\<forall>e \<in> set (edges (loadGraphFromCSV files a)).
         edge_source e \<in> fst ` set (rawEdgesOf files a)
         \<and> edge_target e \<in> snd ` set (rawEdgesOf files a))
   \<and> (\<forall>rows row. translatedRows k (Some nc) (Some ec) = Some rows \<longrightarrow>
         (row \<in> set (drop 1 rows)) =
         (\<exists>rawLine \<in> set (drop 1 (split NEWLINE ec)). \<exists>s t.
             length (split COMMA (trim rawLine)) \<ge> 3
             \<and> foldl (translateNodeStep k) Map.empty (drop 1 (split NEWLINE nc))
                  (trim (split COMMA (trim rawLine) ! 0)) = Some s
             \<and> foldl (translateNodeStep k) Map.empty (drop 1 (split NEWLINE nc))
                  (trim (split COMMA (trim rawLine) ! 1)) = Some t
             \<and> s \<noteq> t
             \<and> row = labelledEdgeKey s t (trim (split COMMA (trim rawLine) ! 2))))
   \<and> (\<forall>s t. ((s, t) \<in> (\<lambda>e. (source_client e, target_client e))
                         ` set (edges_client (loadGraphFromCSV_client (Some csvContent) linesFile))) =
         (\<exists>line \<in> set (drop (if includes_js (split NEWLINE (trim csvContent) ! 0) (js ''source'')
                               then 1 else 0)
                         (split NEWLINE (trim csvContent))).
             length (split COMMA line) \<ge> 2
             \<and> parseInt_noRadix (trim (split COMMA line ! 0)) = Some s
             \<and> parseInt_noRadix (trim (split COMMA line ! 1)) = Some t))"
proof (intro conjI)
  show "\<forall>p \<in> set (rawEdgesOf files a).
      \<exists>edgesContent. edgesCsv files = Some edgesContent
          \<and> (\<exists>line \<in> set (drop 1 (split NEWLINE (trim edgesContent))).
                length (split COMMA line) \<ge> 2
                \<and> nodeIdToLine (loadNodes a (nodesCsv files)) (trim (split COMMA line ! 0)) = Some (fst p)
                \<and> nodeIdToFile (loadNodes a (nodesCsv files)) (trim (split COMMA line ! 0)) = Some a
                \<and> nodeIdToLine (loadNodes a (nodesCsv files)) (trim (split COMMA line ! 1)) = Some (snd p)
                \<and> nodeIdToFile (loadNodes a (nodesCsv files)) (trim (split COMMA line ! 1)) = Some a
                \<and> fst p \<noteq> snd p)"
    by (rule ballI) (rule rawEdges_origin)
next
  show "\<forall>e \<in> set (edges (loadGraphFromCSV files a)).
         edge_source e \<in> fst ` set (rawEdgesOf files a)
         \<and> edge_target e \<in> snd ` set (rawEdgesOf files a)"
  proof (rule ballI)
    fix e assume e: "e \<in> set (edges (loadGraphFromCSV files a))"
    then have ex: "csvExists files" by (auto simp: loadGraphFromCSV_def split: if_splits)
    from e have "(edge_source e, edge_target e)
        \<in> set (map (\<lambda>x. (edge_source x, edge_target x)) (edges (loadGraphFromCSV files a)))"
      by force
    with ex have "(edge_source e, edge_target e) \<in> set (rs_edges
        (rebuildEdges (nodeCategories (loadNodes a (nodesCsv files))) (rawEdgesOf files a)))"
      by (simp only: loadGraph_edge_pairs)
    from rebuildEdges_endpoints[OF this]
    show "edge_source e \<in> fst ` set (rawEdgesOf files a)
           \<and> edge_target e \<in> snd ` set (rawEdgesOf files a)" by simp
  qed
next
  show "\<forall>rows row. translatedRows k (Some nc) (Some ec) = Some rows \<longrightarrow>
         (row \<in> set (drop 1 rows)) =
         (\<exists>rawLine \<in> set (drop 1 (split NEWLINE ec)). \<exists>s t.
             length (split COMMA (trim rawLine)) \<ge> 3
             \<and> foldl (translateNodeStep k) Map.empty (drop 1 (split NEWLINE nc))
                  (trim (split COMMA (trim rawLine) ! 0)) = Some s
             \<and> foldl (translateNodeStep k) Map.empty (drop 1 (split NEWLINE nc))
                  (trim (split COMMA (trim rawLine) ! 1)) = Some t
             \<and> s \<noteq> t
             \<and> row = labelledEdgeKey s t (trim (split COMMA (trim rawLine) ! 2)))"
  proof (intro allI impI iffI)
    fix rows row
    assume "translatedRows k (Some nc) (Some ec) = Some rows" and "row \<in> set (drop 1 rows)"
    then show "\<exists>rawLine \<in> set (drop 1 (split NEWLINE ec)). \<exists>s t.
             length (split COMMA (trim rawLine)) \<ge> 3
             \<and> foldl (translateNodeStep k) Map.empty (drop 1 (split NEWLINE nc))
                  (trim (split COMMA (trim rawLine) ! 0)) = Some s
             \<and> foldl (translateNodeStep k) Map.empty (drop 1 (split NEWLINE nc))
                  (trim (split COMMA (trim rawLine) ! 1)) = Some t
             \<and> s \<noteq> t
             \<and> row = labelledEdgeKey s t (trim (split COMMA (trim rawLine) ! 2))"
      by (rule translatedRows_origin)
  next
    fix rows row
    assume rows: "translatedRows k (Some nc) (Some ec) = Some rows"
      and "\<exists>rawLine \<in> set (drop 1 (split NEWLINE ec)). \<exists>s t.
             length (split COMMA (trim rawLine)) \<ge> 3
             \<and> foldl (translateNodeStep k) Map.empty (drop 1 (split NEWLINE nc))
                  (trim (split COMMA (trim rawLine) ! 0)) = Some s
             \<and> foldl (translateNodeStep k) Map.empty (drop 1 (split NEWLINE nc))
                  (trim (split COMMA (trim rawLine) ! 1)) = Some t
             \<and> s \<noteq> t
             \<and> row = labelledEdgeKey s t (trim (split COMMA (trim rawLine) ! 2))"
    then obtain rawLine s t where "rawLine \<in> set (drop 1 (split NEWLINE ec))"
      "length (split COMMA (trim rawLine)) \<ge> 3"
      "foldl (translateNodeStep k) Map.empty (drop 1 (split NEWLINE nc))
          (trim (split COMMA (trim rawLine) ! 0)) = Some s"
      "foldl (translateNodeStep k) Map.empty (drop 1 (split NEWLINE nc))
          (trim (split COMMA (trim rawLine) ! 1)) = Some t"
      "s \<noteq> t" and row: "row = labelledEdgeKey s t (trim (split COMMA (trim rawLine) ! 2))"
      by blast
    from translatedRows_written[OF rows this(1-5)] row
    show "row \<in> set (drop 1 rows)" by simp
  qed
next
  show "\<forall>s t. ((s, t) \<in> (\<lambda>e. (source_client e, target_client e))
                         ` set (edges_client (loadGraphFromCSV_client (Some csvContent) linesFile))) =
         (\<exists>line \<in> set (drop (if includes_js (split NEWLINE (trim csvContent) ! 0) (js ''source'')
                               then 1 else 0)
                         (split NEWLINE (trim csvContent))).
             length (split COMMA line) \<ge> 2
             \<and> parseInt_noRadix (trim (split COMMA line ! 0)) = Some s
             \<and> parseInt_noRadix (trim (split COMMA line ! 1)) = Some t)"
    by (simp only: client_graph_edges) simp
qed

text \<open>The raw edge from line 2 to line 5 of the example comes from the record \<^verbatim>\<open>n2,n1,dep\<close>.\<close>

theorem kept_edges_by_version_witness:
  "(2, 5) \<in> set (rawEdgesOf example_files example_fileName)
   \<and> (\<exists>edgesContent. edgesCsv example_files = Some edgesContent
          \<and> (\<exists>line \<in> set (drop 1 (split NEWLINE (trim edgesContent))).
                length (split COMMA line) \<ge> 2
                \<and> nodeIdToLine (loadNodes example_fileName (nodesCsv example_files))
                     (trim (split COMMA line ! 0)) = Some 2
                \<and> nodeIdToFile (loadNodes example_fileName (nodesCsv example_files))
                     (trim (split COMMA line ! 0)) = Some example_fileName
                \<and> nodeIdToLine (loadNodes example_fileName (nodesCsv example_files))
                     (trim (split COMMA line ! 1)) = Some 5
                \<and> nodeIdToFile (loadNodes example_fileName (nodesCsv example_files))
                     (trim (split COMMA line ! 1)) = Some example_fileName))"
proof -
  have m: "(2, 5) \<in> set (rawEdgesOf example_files example_fileName)"
    by (simp add: example_raw)
  note t = kept_edges_by_version[where files = example_files and a = example_fileName
      and k = 6 and nc = example_nodesCsv and ec = example_edgesCsv
      and csvContent = example_edgesCsv and linesFile = None]
  from bspec[OF conjunct1[OF t] m] m show ?thesis by simp
qed

text \<open>
  Claim C4 as stated fails in the older version of the file. The record
  \<^verbatim>\<open>n2,n1,dep\<close> goes from line 2 of \<^verbatim>\<open>b.vpr\<close> to line 5 of the analyzed file \<^verbatim>\<open>a.vpr\<close>. In
  \<^verbatim>\<open>part_001\<close> it gives no raw edge and no edge of the graph. The derived file has the row
  \<^verbatim>\<open>2,5,dep\<close> for it in every version, and the graph that the older \<^verbatim>\<open>loadGraphFromCSV\<close> reads
  from the derived file has the edge from 2 to 5.
\<close>

theorem cross_file_edge_counterexample:
  "nodeIdToFile (loadNodes example_fileName (nodesCsv cross_files)) (js ''n2'') = Some (js ''b.vpr'')
   \<and> nodeIdToFile (loadNodes example_fileName (nodesCsv cross_files)) (js ''n1'') = Some example_fileName
   \<and> rawEdgesOf cross_files example_fileName = []
   \<and> edges (loadGraphFromCSV cross_files example_fileName) = []
   \<and> translatedRows 6 (nodesCsv cross_files) (edgesCsv cross_files)
       = Some [js ''source,target,label'', js ''2,5,dep'']
   \<and> translatedRows 5 (Some cross_nodesCsv_client) (Some cross_edgesCsv)
       = Some [js ''source,target,label'', js ''2,5,dep'']
   \<and> edges_client (loadGraphFromCSV_client
        (translateEdgesToLineNumbers 5 (Some cross_nodesCsv_client) (Some cross_edgesCsv)) None)
       = [\<lparr>index_client = 0, source_client = 2, target_client = 5\<rparr>]"
proof -
  have f: "nodesCsv cross_files = Some cross_nodesCsv" "edgesCsv cross_files = Some cross_edgesCsv"
    by (simp_all add: cross_files_def)
  show ?thesis
    unfolding f cross_nodes cross_raw cross_graph_edges cross_rows cross_rows_client cross_client_edges
    by (simp add: cross_nodeMaps_def example_fileName_def)
qed

text \<open>
  Claim C5. No raw edge has its source equal to its target, no edge of the returned graph has,
  and no pair of source and target appears twice among the edges of the returned graph. The
  rows of the derived edge file, too, are keys of two different lines.
\<close>

theorem no_self_no_dup:
  "(\<forall>p \<in> set (rawEdgesOf files a). fst p \<noteq> snd p)
   \<and> (\<forall>e \<in> set (edges (loadGraphFromCSV files a)). edge_source e \<noteq> edge_target e)
   \<and> distinct (map (\<lambda>e. (edge_source e, edge_target e)) (edges (loadGraphFromCSV files a)))
   \<and> (\<forall>rows. translatedRows k nodesContent edgesContent = Some rows \<longrightarrow>
         (\<forall>row \<in> set (drop 1 rows). \<exists>s t label. s \<noteq> t \<and> row = labelledEdgeKey s t label))"
proof (intro conjI)
  show "\<forall>p \<in> set (rawEdgesOf files a). fst p \<noteq> snd p"
    using rawInv_loadEdges[of a "loadNodes a (nodesCsv files)" "edgesCsv files"]
    by (simp add: rawInv_def rawEdgesOf_def)
next
  let ?st = "rebuildEdges (nodeCategories (loadNodes a (nodesCsv files))) (rawEdgesOf files a)"
  have inv: "rebInv (terminal (nodeCategories (loadNodes a (nodesCsv files)))
                (buildParentMap (rawEdgesOf files a))) ?st"
    by (rule rebInv_rebuildEdges)
  show "distinct (map (\<lambda>e. (edge_source e, edge_target e)) (edges (loadGraphFromCSV files a)))"
  proof (cases "csvExists files")
    case True
    with inv show ?thesis by (simp add: loadGraph_edge_pairs rebInv_def)
  next
    case False
    then show ?thesis by (simp add: loadGraph_no_csv)
  qed
  show "\<forall>e \<in> set (edges (loadGraphFromCSV files a)). edge_source e \<noteq> edge_target e"
  proof (cases "csvExists files")
    case True
    show ?thesis
    proof
      fix e assume "e \<in> set (edges (loadGraphFromCSV files a))"
      then have "(edge_source e, edge_target e) \<in> set (map (\<lambda>x. (edge_source x, edge_target x)) (edges (loadGraphFromCSV files a)))"
        by force
      with True have "(edge_source e, edge_target e) \<in> set (rs_edges ?st)"
        by (simp only: loadGraph_edge_pairs)
      with inv show "edge_source e \<noteq> edge_target e" by (force simp: rebInv_def)
    qed
  next
    case False
    then show ?thesis by (simp add: loadGraph_no_csv)
  qed
next
  show "\<forall>rows. translatedRows k nodesContent edgesContent = Some rows \<longrightarrow>
         (\<forall>row \<in> set (drop 1 rows). \<exists>s t label. s \<noteq> t \<and> row = labelledEdgeKey s t label)"
  proof (intro allI impI ballI)
    fix rows row
    assume rows: "translatedRows k nodesContent edgesContent = Some rows"
      and row: "row \<in> set (drop 1 rows)"
    from rows obtain nc ec where "nodesContent = Some nc" "edgesContent = Some ec"
      by (auto simp: translatedRows_def split: option.splits)
    with rows have "translatedRows k (Some nc) (Some ec) = Some rows" by simp
    from translatedRows_origin[OF this row]
    show "\<exists>s t label. s \<noteq> t \<and> row = labelledEdgeKey s t label" by blast
  qed
qed

text \<open>The example has the raw edges 2 to 5 and 5 to 7, and the final edges 2 to 5 and 2 to 7.\<close>

theorem no_self_no_dup_witness:
  "rawEdgesOf example_files example_fileName = [(2, 5), (5, 7)]
   \<and> map (\<lambda>e. (edge_source e, edge_target e))
        (edges (loadGraphFromCSV example_files example_fileName))
      = [(2, 5), (2, 7)]
   \<and> fst (2 :: nat, 5 :: nat) \<noteq> snd (2 :: nat, 5 :: nat)
   \<and> edge_source \<lparr>edge_index = 1, edge_source = 2, edge_target = 7\<rparr>
         \<noteq> edge_target \<lparr>edge_index = 1, edge_source = 2, edge_target = 7\<rparr>
   \<and> distinct (map (\<lambda>e. (edge_source e, edge_target e))
                  (edges (loadGraphFromCSV example_files example_fileName)))"
proof -
  note t = no_self_no_dup[where files = example_files and a = example_fileName
      and k = 6 and nodesContent = "Some example_nodesCsv" and edgesContent = "Some dup_edgesCsv"]
  have r: "(2, 5) \<in> set (rawEdgesOf example_files example_fileName)"
    by (simp add: example_raw)
  have e: "\<lparr>edge_index = 1, edge_source = 2, edge_target = 7\<rparr>
      \<in> set (edges (loadGraphFromCSV example_files example_fileName))"
    by (simp add: example_graph)
  from bspec[OF conjunct1[OF t] r] bspec[OF conjunct1[OF conjunct2[OF t]] e]
    conjunct1[OF conjunct2[OF conjunct2[OF t]]]
  show ?thesis by (simp add: example_raw example_graph)
qed

section \<open>The claims about the decorations\<close>

lemma clearEditorDecorations_all:
  "clearEditorDecorations ed = ed\<lparr>decorations := (\<lambda>d. [])\<rparr>"
proof -
  have "(decorations ed)
          (directDependencyDecoration := [], indirectDependencyDecoration := [],
           directDependantDecoration := [], indirectDependantDecoration := [],
           selectedDecoration := []) = (\<lambda>d. [])"
    by (rule ext) (case_tac d; simp)
  then show ?thesis
    by (simp add: clearEditorDecorations_def setDecorations_def)
qed

lemma lineRanges_filter:
  "lineRanges ed (filter (\<lambda>k. k \<ge> 1 \<and> k \<le> int (lineCount ed) \<and> k \<noteq> ln) ns)
     = Some (map (\<lambda>k. nat (k - 1)) (filter (\<lambda>k. k \<ge> 1 \<and> k \<le> int (lineCount ed) \<and> k \<noteq> ln) ns))"
  by (induction ns) (auto simp: lineAt_def)

lemma lineCount_setDecorations [simp]: "lineCount (setDecorations d rs ed) = lineCount ed"
  by (simp add: setDecorations_def)

lemma lineCount_clear [simp]: "lineCount (clearEditorDecorations ed) = lineCount ed"
  by (simp add: clearEditorDecorations_all)

lemma applyHighlights_in_range:
  assumes "1 \<le> ln" "ln \<le> int (lineCount ed)"
  shows "applyHighlights ext ed ln ns ins sd cf =
     ext\<lparr>analyzedEditor := Some
        ((setDecorations selectedDecoration [nat (ln - 1)]
           (setDecorations (if sd then indirectDependantDecoration else indirectDependencyDecoration)
              (inRange ed ln ins)
              (setDecorations (if sd then directDependantDecoration else directDependencyDecoration)
                 (inRange ed ln ns)
                 (if cf then clearEditorDecorations ed else ed))))\<lparr>revealed := Some (nat (ln - 1))\<rparr>)\<rparr>"
proof -
  have sel: "lineAt ed (ln - 1) = Some (nat (ln - 1))"
    using assms by (simp add: lineAt_def)
  have sel': "lineAt ed' (ln - 1) = Some (nat (ln - 1))" if "lineCount ed' = lineCount ed" for ed'
    using that sel by (simp add: lineAt_def)
  show ?thesis
    unfolding applyHighlights_def Let_def
    by (simp add: sel lineRanges_filter inRange_def sel')
qed

text \<open>
  Claim C7, as amended. With an editor on the analyzed file, a selected line number below 0 or
  above the line count makes \<^verbatim>\<open>highlightLines\<close> show the out-of-range warning and nothing
  else: the decorations and the revealed line stay as they were, no error is caught, and only
  the flag that mutes the selection listener is set. Line 0 is not out of range there (claim
  C10). In \<^verbatim>\<open>client/src/DependencyAnalysis.ts\<close> the lower bound is 1, and the same holds for
  every line number below 1 or above the line count.
\<close>

theorem out_of_range_warns:
  "(lineNumber < 0 \<or> lineNumber > int (lineCount ed) \<longrightarrow>
      highlightLines (ext\<lparr>analyzedEditor := Some ed\<rparr>) lineNumber neighbors indirectNeighbors sd
        = ext\<lparr>analyzedEditor := Some ed, isUpdatingHighlights := True,
               warningMessages := warningMessages ext @ [LineOutOfRange lineNumber]\<rparr>)
   \<and> (lineNumber < 1 \<or> lineNumber > int (lineCount ed) \<longrightarrow>
      highlightLines_client (ext\<lparr>analyzedEditor := Some ed\<rparr>) lineNumber neighbors indirectNeighbors sd
        = ext\<lparr>analyzedEditor := Some ed, isUpdatingHighlights := True,
               warningMessages := warningMessages ext @ [LineOutOfRange lineNumber]\<rparr>)"
  by (auto simp: highlightLines_def highlightLines_client_def Let_def)

text \<open>Line 4 of a document of three lines, and line 0 in the older version.\<close>

theorem out_of_range_warns_witness:
  "(4 :: int) > int (lineCount example_editor)
   \<and> highlightLines example_extension 4 [1] [] False
        = example_extension\<lparr>isUpdatingHighlights := True, warningMessages := [LineOutOfRange 4]\<rparr>
   \<and> (0 :: int) < 1
   \<and> highlightLines_client example_extension 0 [1] [] False
        = example_extension\<lparr>isUpdatingHighlights := True, warningMessages := [LineOutOfRange 0]\<rparr>"
proof -
  have e: "example_extension\<lparr>analyzedEditor := Some example_editor\<rparr> = example_extension"
    by (simp add: example_extension_def)
  have h: "(4 :: int) > int (lineCount example_editor)" by (simp add: example_editor_def)
  from out_of_range_warns[where lineNumber = 4 and ed = example_editor and ext = example_extension
      and neighbors = "[1]" and indirectNeighbors = "[]" and sd = False]
    out_of_range_warns[where lineNumber = 0 and ed = example_editor and ext = example_extension
      and neighbors = "[1]" and indirectNeighbors = "[]" and sd = False] h
  show ?thesis unfolding e by (simp add: example_extension_def)
qed

text \<open>
  Claim C7 as stated fails at line 0, which is below 1: \<^verbatim>\<open>highlightLines\<close> shows no warning
  and clears the decorations that were set.
\<close>

theorem out_of_range_warns_counterexample:
  "warningMessages (highlightLines example_extension 0 [] [] False) = []
   \<and> analyzedEditor (highlightLines example_extension 0 [] [] False)
        = Some (example_editor\<lparr>decorations := (\<lambda>d. [])\<rparr>)
   \<and> decorations example_editor selectedDecoration = [1]"
  by (simp add: highlightLines_def Let_def example_extension_def clearEditorDecorations_all
      example_editor_def)

text \<open>
  Claim C9. For a selected line between 1 and the line count, \<^verbatim>\<open>highlightLines\<close> ends without
  a warning and without a caught error, so every access to a line of the document was within
  bounds; the selected decoration is on the selected line alone, and every other decoration
  holds only lines \<open>n\<close> (kept as the index \<open>n - 1\<close>) with \<open>1 \<le> n\<close>, \<open>n\<close> at most the line
  count, \<open>n\<close> different from the selected line and \<open>n\<close> among the neighbours received.
\<close>

theorem neighbors_in_range:
  assumes "1 \<le> lineNumber" and "lineNumber \<le> int (lineCount ed)"
  shows "\<exists>ed'. highlightLines (ext\<lparr>analyzedEditor := Some ed\<rparr>) lineNumber neighbors indirectNeighbors sd
           = ext\<lparr>analyzedEditor := Some ed', isUpdatingHighlights := True\<rparr>
         \<and> lineCount ed' = lineCount ed
         \<and> decorations ed' selectedDecoration = [nat (lineNumber - 1)]
         \<and> (\<forall>d. d \<noteq> selectedDecoration \<longrightarrow>
               (\<forall>i \<in> set (decorations ed' d).
                  i < lineCount ed \<and> int i + 1 \<noteq> lineNumber
                  \<and> int i + 1 \<in> set neighbors \<union> set indirectNeighbors))"
proof -
  let ?ed' = "(setDecorations selectedDecoration [nat (lineNumber - 1)]
           (setDecorations (if sd then indirectDependantDecoration else indirectDependencyDecoration)
              (inRange (clearEditorDecorations ed) lineNumber indirectNeighbors)
              (setDecorations (if sd then directDependantDecoration else directDependencyDecoration)
                 (inRange (clearEditorDecorations ed) lineNumber neighbors)
                 (clearEditorDecorations ed))))\<lparr>revealed := Some (nat (lineNumber - 1))\<rparr>"
  have eq: "highlightLines (ext\<lparr>analyzedEditor := Some ed\<rparr>) lineNumber neighbors indirectNeighbors sd
           = ext\<lparr>analyzedEditor := Some ?ed', isUpdatingHighlights := True\<rparr>"
    using assms
    by (simp add: highlightLines_def Let_def applyHighlights_in_range)
  have inr: "i < lineCount ed \<and> int i + 1 \<noteq> lineNumber \<and> int i + 1 \<in> set xs"
    if "i \<in> set (inRange (clearEditorDecorations ed) lineNumber xs)" for i xs
    using that by (auto simp: inRange_def)
  have dec: "\<forall>d. d \<noteq> selectedDecoration \<longrightarrow>
               (\<forall>i \<in> set (decorations ?ed' d).
                  i < lineCount ed \<and> int i + 1 \<noteq> lineNumber
                  \<and> int i + 1 \<in> set neighbors \<union> set indirectNeighbors)"
    using inr by (auto simp: setDecorations_def clearEditorDecorations_all split: if_splits)
  have "lineCount ?ed' = lineCount ed" by simp
  moreover have "decorations ?ed' selectedDecoration = [nat (lineNumber - 1)]"
    by (simp add: setDecorations_def)
  ultimately show ?thesis using eq dec by blast
qed

text \<open>
  Line 2 of three, with the neighbours 1, 2, 7, 0 and -3 and the indirect neighbour 3: lines 1
  and 3 are decorated.
\<close>

theorem neighbors_in_range_witness:
  "(1 :: int) \<le> 2 \<and> (2 :: int) \<le> int (lineCount example_editor)
   \<and> (\<exists>ed'. highlightLines example_extension 2 [1, 2, 7, 0, - 3] [3] False
           = example_extension\<lparr>analyzedEditor := Some ed', isUpdatingHighlights := True\<rparr>
         \<and> lineCount ed' = 3
         \<and> decorations ed' selectedDecoration = [1]
         \<and> (\<forall>d. d \<noteq> selectedDecoration \<longrightarrow>
               (\<forall>i \<in> set (decorations ed' d).
                  i < 3 \<and> int i + 1 \<noteq> 2
                  \<and> int i + 1 \<in> set [1, 2, 7, 0, - 3] \<union> set [3])))"
proof -
  have e: "example_extension\<lparr>analyzedEditor := Some example_editor\<rparr> = example_extension"
    by (simp add: example_extension_def)
  have h1: "(1 :: int) \<le> 2" by simp
  have h2: "(2 :: int) \<le> int (lineCount example_editor)" by (simp add: example_editor_def)
  have n: "lineCount example_editor = 3" by (simp add: example_editor_def)
  from neighbors_in_range[OF h1 h2, where ext = example_extension
      and neighbors = "[1, 2, 7, 0, - 3]" and indirectNeighbors = "[3]" and sd = False]
  show ?thesis unfolding e n using h2 by simp
qed

text \<open>The same holds of \<^verbatim>\<open>highlightLines\<close> in \<^verbatim>\<open>client/src/DependencyAnalysis.ts\<close>.\<close>

lemma client_neighbors_in_range:
  assumes "1 \<le> lineNumber" and "lineNumber \<le> int (lineCount ed)"
  shows "\<exists>ed'. highlightLines_client (ext\<lparr>analyzedEditor := Some ed\<rparr>) lineNumber neighbors
             indirectNeighbors sd
           = ext\<lparr>analyzedEditor := Some ed', isUpdatingHighlights := True\<rparr>
         \<and> lineCount ed' = lineCount ed
         \<and> decorations ed' selectedDecoration = [nat (lineNumber - 1)]
         \<and> (\<forall>d. d \<noteq> selectedDecoration \<longrightarrow>
               (\<forall>i \<in> set (decorations ed' d).
                  i < lineCount ed \<and> int i + 1 \<noteq> lineNumber
                  \<and> int i + 1 \<in> set neighbors \<union> set indirectNeighbors))"
proof -
  let ?ed' = "(setDecorations selectedDecoration [nat (lineNumber - 1)]
           (setDecorations (if sd then indirectDependantDecoration else indirectDependencyDecoration)
              (inRange ed lineNumber indirectNeighbors)
              (setDecorations (if sd then directDependantDecoration else directDependencyDecoration)
                 (inRange ed lineNumber neighbors)
                 (clearEditorDecorations ed))))\<lparr>revealed := Some (nat (lineNumber - 1))\<rparr>"
  have eq: "highlightLines_client (ext\<lparr>analyzedEditor := Some ed\<rparr>) lineNumber neighbors indirectNeighbors sd
           = ext\<lparr>analyzedEditor := Some ?ed', isUpdatingHighlights := True\<rparr>"
    using assms
    by (simp add: highlightLines_client_def Let_def applyHighlights_in_range)
  have inr: "i < lineCount ed \<and> int i + 1 \<noteq> lineNumber \<and> int i + 1 \<in> set xs"
    if "i \<in> set (inRange ed lineNumber xs)" for i xs
    using that by (auto simp: inRange_def)
  have dec: "\<forall>d. d \<noteq> selectedDecoration \<longrightarrow>
               (\<forall>i \<in> set (decorations ?ed' d).
                  i < lineCount ed \<and> int i + 1 \<noteq> lineNumber
                  \<and> int i + 1 \<in> set neighbors \<union> set indirectNeighbors)"
    using inr by (auto simp: setDecorations_def clearEditorDecorations_all split: if_splits)
  have "lineCount ?ed' = lineCount ed" by simp
  moreover have "decorations ?ed' selectedDecoration = [nat (lineNumber - 1)]"
    by (simp add: setDecorations_def)
  ultimately show ?thesis using eq dec by blast
qed

text \<open>
  Claim C10. With an editor on the analyzed file, \<^verbatim>\<open>highlightLines\<close> for line 0 empties all
  five decoration types and changes nothing else but the flag that mutes the selection
  listener: no decoration is set, no line is revealed, no warning is shown. A click on the
  node that is selected posts the message with line 0 and no neighbours, and the extension,
  with highlights enabled, answers it in that way.
\<close>

theorem line_zero_clears:
  "highlightLines (ext\<lparr>analyzedEditor := Some ed\<rparr>) 0 neighbors indirectNeighbors sd
     = ext\<lparr>analyzedEditor := Some (ed\<lparr>decorations := (\<lambda>d. [])\<rparr>), isUpdatingHighlights := True\<rparr>
   \<and> snd (nodeClick g (st\<lparr>selectedNode := Some node\<rparr>) node)
     = Some \<lparr>msg_lineNumber = 0, msg_neighbors = [], msg_indirectNeighbors = [],
             msg_showDependents = showDependents st\<rparr>
   \<and> onDidReceiveMessage (ext\<lparr>analyzedEditor := Some ed, highlightsEnabled := True\<rparr>)
        \<lparr>msg_lineNumber = 0, msg_neighbors = [], msg_indirectNeighbors = [],
              msg_showDependents = showDependents st\<rparr>
     = ext\<lparr>analyzedEditor := Some (ed\<lparr>decorations := (\<lambda>d. [])\<rparr>), highlightsEnabled := True,
            isUpdatingHighlights := True\<rparr>"
  by (simp add: highlightLines_def Let_def clearEditorDecorations_all nodeClick_def onDidReceiveMessage_def)

text \<open>The second click on the selected node 7 of the chain, with line 2 decorated in the editor.\<close>

theorem line_zero_clears_witness:
  "snd (nodeClick chain_graph chain_view 7)
     = Some \<lparr>msg_lineNumber = 0, msg_neighbors = [], msg_indirectNeighbors = [],
             msg_showDependents = False\<rparr>
   \<and> onDidReceiveMessage example_extension
        \<lparr>msg_lineNumber = 0, msg_neighbors = [], msg_indirectNeighbors = [],
              msg_showDependents = False\<rparr>
     = example_extension\<lparr>analyzedEditor := Some (example_editor\<lparr>decorations := (\<lambda>d. [])\<rparr>),
                         isUpdatingHighlights := True\<rparr>"
proof -
  have e: "example_extension\<lparr>analyzedEditor := Some example_editor, highlightsEnabled := True\<rparr>
             = example_extension"
    by (simp add: example_extension_def)
  have v: "chain_view\<lparr>selectedNode := Some 7\<rparr> = chain_view" "showDependents chain_view = False"
    by (simp_all add: chain_view_def)
  from line_zero_clears[where ext = example_extension and ed = example_editor and neighbors = "[]"
      and indirectNeighbors = "[]" and sd = False and g = chain_graph and st = chain_view
      and node = 7]
  show ?thesis unfolding e v by (simp add: example_extension_def)
qed

section \<open>The claim about the filter\<close>

lemma related_filterState [simp]:
  "related g (st\<lparr>filterState := fs\<rparr>) node = related g st node"
  "directRelated g (st\<lparr>filterState := fs\<rparr>) node = directRelated g st node"
  by (simp_all add: related_def directRelated_def)

lemma related_nodeClasses [simp]:
  "related g (st\<lparr>nodeClasses := cl\<rparr>) node = related g st node"
  "directRelated g (st\<lparr>nodeClasses := cl\<rparr>) node = directRelated g st node"
  by (simp_all add: related_def directRelated_def)

lemma filtered_after_applyFilters:
  assumes "n \<in> set (cyNodes g)"
    and "cls_filtered \<notin> nodeClasses st n"
    and "cls_direct \<in> nodeClasses st n \<or> cls_indirect \<in> nodeClasses st n
         \<or> cls_direct_dependent \<in> nodeClasses st n \<or> cls_indirect_dependent \<in> nodeClasses st n"
  shows "cls_filtered \<in> nodeClasses (applyFilters g st) n
           \<longleftrightarrow> cls_selected \<notin> nodeClasses st n \<and> \<not> isVisible g (filterState st) n"
  using assms by (simp add: applyFilters_def Let_def isVisible_def)

lemma reported_highlight:
  assumes node: "node \<in> set (cyNodes g)"
  shows "reportedLines (snd (highlightNodeAndDependencies g st (Some node) True))
     = {n \<in> set (cyNodes g).
          (n \<in> directRelated g st node \<or> (showIndirect st \<and> n \<in> related g st node))
          \<and> (n = node \<or> isVisible g (filterState st) n)}"
proof -
  define rel where "rel = related g st node"
  define direct where "direct = directRelated g st node"
  define indirectClass where
    "indirectClass = (if showDependents st then cls_indirect_dependent else cls_indirect)"
  define directClass where
    "directClass = (if showDependents st then cls_direct_dependent else cls_direct)"
  define st1 where "st1 = st\<lparr>nodeClasses := (\<lambda>n.
                           if n \<notin> set (cyNodes g) then nodeClasses st n
                           else (if n = node \<or> n \<in> rel then {} else {cls_dimmed})
                                \<union> (if showIndirect st \<and> n \<in> rel - direct then {indirectClass} else {})
                                \<union> (if n \<in> direct then {directClass} else {})
                                \<union> (if n = node then {cls_selected} else {}))\<rparr>"
  define st2 where "st2 = applyFilters g st1"
  have fs: "filterState st1 = filterState st" by (simp add: st1_def)
  have msg: "snd (highlightNodeAndDependencies g st (Some node) True) =
      Some \<lparr>msg_lineNumber = node,
            msg_neighbors = filter (\<lambda>n. n \<in> direct \<and> cls_filtered \<notin> nodeClasses st2 n) (cyNodes g),
            msg_indirectNeighbors =
              (if showIndirect st then
                 filter (\<lambda>n. n \<in> rel - direct \<and> cls_filtered \<notin> nodeClasses st2 n) (cyNodes g)
               else []),
            msg_showDependents = showDependents st\<rparr>"
    unfolding st2_def st1_def indirectClass_def directClass_def rel_def direct_def
      highlightNodeAndDependencies_def Let_def
    using node by simp
  have cls: "nodeClasses st1 n =
       (if n = node \<or> n \<in> rel then {} else {cls_dimmed})
        \<union> (if showIndirect st \<and> n \<in> rel - direct then {indirectClass} else {})
        \<union> (if n \<in> direct then {directClass} else {})
        \<union> (if n = node then {cls_selected} else {})"
    if "n \<in> set (cyNodes g)" for n
    using that by (simp add: st1_def)
  have nf: "cls_filtered \<notin> nodeClasses st1 n" if "n \<in> set (cyNodes g)" for n
    unfolding cls[OF that] by (simp add: indirectClass_def directClass_def)
  have sel: "cls_selected \<in> nodeClasses st1 n \<longleftrightarrow> n = node" if "n \<in> set (cyNodes g)" for n
    unfolding cls[OF that] by (simp add: indirectClass_def directClass_def)
  have hl: "cls_direct \<in> nodeClasses st1 n \<or> cls_indirect \<in> nodeClasses st1 n
         \<or> cls_direct_dependent \<in> nodeClasses st1 n \<or> cls_indirect_dependent \<in> nodeClasses st1 n"
    if "n \<in> set (cyNodes g)" "n \<in> direct \<or> (showIndirect st \<and> n \<in> rel - direct)" for n
    using that(2) unfolding cls[OF that(1)] by (auto simp: indirectClass_def directClass_def)
  have filt: "cls_filtered \<notin> nodeClasses st2 n \<longleftrightarrow> n = node \<or> isVisible g (filterState st) n"
    if "n \<in> set (cyNodes g)" "n \<in> direct \<or> (showIndirect st \<and> n \<in> rel - direct)" for n
    using filtered_after_applyFilters[OF that(1) nf[OF that(1)] hl[OF that]] sel[OF that(1)]
    by (simp add: st2_def fs)
  have "reportedLines (snd (highlightNodeAndDependencies g st (Some node) True))
     = {n \<in> set (cyNodes g). (n \<in> direct \<or> (showIndirect st \<and> n \<in> rel - direct))
          \<and> cls_filtered \<notin> nodeClasses st2 n}"
    unfolding msg reportedLines_def by auto
  also have "\<dots> = {n \<in> set (cyNodes g). (n \<in> direct \<or> (showIndirect st \<and> n \<in> rel - direct))
          \<and> (n = node \<or> isVisible g (filterState st) n)}"
    using filt by blast
  also have "\<dots> = {n \<in> set (cyNodes g). (n \<in> direct \<or> (showIndirect st \<and> n \<in> rel))
          \<and> (n = node \<or> isVisible g (filterState st) n)}"
    by blast
  finally show ?thesis by (simp add: rel_def direct_def)
qed

lemma isVisible_disable:
  "isVisible g (fs(c \<mapsto> False)) n \<Longrightarrow> isVisible g fs n"
  by (auto simp: isVisible_def split: if_splits)

lemma reported_missing:
  "node \<notin> set (cyNodes g) \<Longrightarrow>
     reportedLines (snd (highlightNodeAndDependencies g st (Some node) True)) = {}"
  "reportedLines (snd (highlightNodeAndDependencies g st None True)) = {}"
  by (simp_all add: highlightNodeAndDependencies_def reportedLines_def)

lemma showIndirect_applyFilters [simp]:
  "showIndirect (applyFilters g st) = showIndirect st"
  "showDependents (applyFilters g st) = showDependents st"
  "filterState (applyFilters g st) = filterState st"
  "selectedNode (applyFilters g st) = selectedNode st"
  by (simp_all add: applyFilters_def)

lemma related_applyFilters [simp]:
  "related g (applyFilters g' st) node = related g st node"
  "directRelated g (applyFilters g' st) node = directRelated g st node"
  by (simp_all add: related_def directRelated_def)

lemma enableShowIndirect_eq: "enableShowIndirect st = st\<lparr>showIndirect := True\<rparr>"
  by (cases st) (simp add: enableShowIndirect_def)

lemma chain_cyNodes: "cyNodes chain_graph = [2, 5, 7]"
  by (simp add: cyNodes_def chain_graph_def uniq_def)

lemma chain_cyEdges: "cyEdges chain_graph = {(2, 5), (5, 7)}"
proof -
  have "{e \<in> set (edges chain_graph).
          edge_source e \<in> set [2, 5, 7] \<and> edge_target e \<in> set [2, 5, 7]} = set (edges chain_graph)"
    by (auto simp: chain_graph_def)
  then show ?thesis
    unfolding cyEdges_def chain_cyNodes by (simp add: chain_graph_def)
qed

lemma chain_incomers: "incomers chain_graph 7 = {5}"
proof -
  have "{p \<in> {(2, 5), (5, 7)}. snd p = 7} = {(5, 7 :: nat) :: nat \<times> nat}" by auto
  then show ?thesis by (simp add: incomers_def chain_cyEdges)
qed

lemma chain_predecessors: "2 \<in> predecessors chain_graph 7"
proof -
  have a: "(2, 5) \<in> cyEdges chain_graph" and b: "(5, 7) \<in> cyEdges chain_graph"
    by (simp_all add: chain_cyEdges)
  from a b have "(2, 7) \<in> (cyEdges chain_graph)\<^sup>+" by (rule r_r_into_trancl)
  then show ?thesis
    by (force simp: predecessors_def)
qed

lemma chain_categories:
  "categoriesOf chain_graph 2 = [ExplicitAssumption]"
  "categoriesOf chain_graph 5 = [ImplicitAssertion]"
  by (simp_all add: categoriesOf_def chain_graph_def)

lemma chain_before:
  "reportedLines (snd (highlightNodeAndDependencies chain_graph chain_view (Some 7) True)) = {5}"
  by (auto simp: reported_highlight chain_cyNodes directRelated_def related_def chain_view_def
      chain_incomers isVisible_def chain_categories initialFilterState_def)

lemma chain_after:
  "2 \<in> reportedLines (snd (checkboxChange chain_graph chain_view ImplicitAssumption False))"
proof -
  have "reportedLines (snd (checkboxChange chain_graph chain_view ImplicitAssumption False))
     = reportedLines (snd (highlightNodeAndDependencies chain_graph
            (applyFilters chain_graph (chain_view\<lparr>filterState := (filterState chain_view)(ImplicitAssumption \<mapsto> False), showIndirect := True\<rparr>))
            (Some 7) True))"
    by (simp add: checkboxChange_def Let_def enableShowIndirect_eq chain_cyNodes chain_view_def)
  moreover have "2 \<in> reportedLines (snd (highlightNodeAndDependencies chain_graph
            (applyFilters chain_graph (chain_view\<lparr>filterState := (filterState chain_view)(ImplicitAssumption \<mapsto> False), showIndirect := True\<rparr>))
            (Some 7) True))"
    using chain_predecessors
    by (simp add: reported_highlight chain_cyNodes related_def directRelated_def chain_view_def
      isVisible_def chain_categories initialFilterState_def)
  ultimately show ?thesis by simp
qed

text \<open>
  Claim C6, as amended. With the direction and the depth mode held fixed, the lines that
  \<^verbatim>\<open>highlightNodeAndDependencies\<close> reports with one more category disabled are among those it
  reports without. The checkbox of a category does not hold the depth mode fixed: its listener
  turns the indirect mode on before it queries again, so the lines reported after a category
  was disabled are among those that the query reports in the indirect mode under the filter
  as it was before.
\<close>

theorem filter_monotone:
  "reportedLines (snd (highlightNodeAndDependencies g
        (st\<lparr>filterState := (filterState st)(c \<mapsto> False)\<rparr>) nodeOpt True))
     \<subseteq> reportedLines (snd (highlightNodeAndDependencies g st nodeOpt True))
   \<and> reportedLines (snd (checkboxChange g st c False))
     \<subseteq> reportedLines (snd (highlightNodeAndDependencies g (st\<lparr>showIndirect := True\<rparr>)
                               (selectedNode st) True))"
proof
  show "reportedLines (snd (highlightNodeAndDependencies g
        (st\<lparr>filterState := (filterState st)(c \<mapsto> False)\<rparr>) nodeOpt True))
     \<subseteq> reportedLines (snd (highlightNodeAndDependencies g st nodeOpt True))"
  proof (cases nodeOpt)
    case None
    then show ?thesis by (simp add: reported_missing)
  next
    case (Some node)
    show ?thesis
    proof (cases "node \<in> set (cyNodes g)")
      case True
      then show ?thesis
        unfolding Some by (auto simp: reported_highlight dest: isVisible_disable)
    next
      case False
      then show ?thesis unfolding Some by (simp add: reported_missing)
    qed
  qed
next
  show "reportedLines (snd (checkboxChange g st c False))
     \<subseteq> reportedLines (snd (highlightNodeAndDependencies g (st\<lparr>showIndirect := True\<rparr>)
                               (selectedNode st) True))"
  proof (cases "selectedNode st")
    case None
    then show ?thesis
      by (simp add: checkboxChange_def Let_def enableShowIndirect_eq reportedLines_def)
  next
    case (Some node)
    show ?thesis
    proof (cases "node \<in> set (cyNodes g)")
      case False
      with Some show ?thesis
        by (simp add: checkboxChange_def Let_def enableShowIndirect_eq reportedLines_def)
    next
      case True
      have "reportedLines (snd (checkboxChange g st c False))
        = reportedLines (snd (highlightNodeAndDependencies g
            (applyFilters g (st\<lparr>filterState := (filterState st)(c \<mapsto> False), showIndirect := True\<rparr>))
            (Some node) True))"
        using Some True by (simp add: checkboxChange_def Let_def enableShowIndirect_eq)
      also have "\<dots> \<subseteq> reportedLines (snd (highlightNodeAndDependencies g (st\<lparr>showIndirect := True\<rparr>)
                               (Some node) True))"
        using True
        by (auto simp: reported_highlight related_def directRelated_def dest: isVisible_disable)
      finally show ?thesis using Some by simp
    qed
  qed
qed

text \<open>
  Disabling the implicit assertions while line 7 of the chain is selected leaves no line of
  the direct result, which was line 5.
\<close>

theorem filter_monotone_witness:
  "reportedLines (snd (highlightNodeAndDependencies chain_graph chain_view (Some 7) True)) = {5}
   \<and> reportedLines (snd (highlightNodeAndDependencies chain_graph
        (chain_view\<lparr>filterState := (filterState chain_view)(ImplicitAssertion \<mapsto> False)\<rparr>)
        (Some 7) True)) \<subseteq> {5}
   \<and> reportedLines (snd (checkboxChange chain_graph chain_view ImplicitAssertion False))
     \<subseteq> reportedLines (snd (highlightNodeAndDependencies chain_graph
                               (chain_view\<lparr>showIndirect := True\<rparr>) (Some 7) True))"
proof -
  have s: "selectedNode chain_view = Some 7" by (simp add: chain_view_def)
  from filter_monotone[where g = chain_graph and st = chain_view and c = ImplicitAssertion
      and nodeOpt = "Some 7"] chain_before
  show ?thesis unfolding s by simp
qed

text \<open>
  Claim C6 as stated fails in the direct-only mode. With line 7 of the chain selected the query
  reports line 5; when the checkbox of the implicit assumptions is then cleared, the listener
  turns the indirect mode on and the query reports line 2 as well.
\<close>

theorem filter_monotone_counterexample:
  "reportedLines (snd (highlightNodeAndDependencies chain_graph chain_view
                         (selectedNode chain_view) True)) = {5}
   \<and> 2 \<in> reportedLines (snd (checkboxChange chain_graph chain_view ImplicitAssumption False))"
proof -
  have "selectedNode chain_view = Some 7" by (simp add: chain_view_def)
  with chain_before chain_after show ?thesis by simp
qed

end
